theory Spec2Isabelle
  imports Complex_Main "HOL-Library.Word" "HOL-Library.List_Lexorder" "HOL-Library.Multiset"
    "HOL-Library.Sublist"
begin

section \<open>Strings and numbers of the source language\<close>

text \<open>
  A string of the source is a sequence of 16-bit code units; \<open>length\<close>, indexing,
  \<open>includes\<close>, \<open>startsWith\<close> and the relational operators all count and compare
  code units. The order on lists is the lexicographic one, as \<open>a < b\<close> on two strings is.
  A literal is written \<open>js ''...''\<close>. Numbers that the program uses as counts, page
  numbers, years and integer cents are modelled as \<open>int\<close>; fractional, infinite and
  not-a-number values of the source's number type are outside this model, except
  where the program adds amounts: the running totals of \<open>computeKPIs\<close> are doubles,
  modelled below with their rounding and their infinities.
\<close>

type_synonym jsstring = "16 word list"

definition js :: "string \<Rightarrow> jsstring" where
  "js s = map of_char s"

definition comma :: "16 word" where "comma = 0x2C"
definition ldquo :: "16 word" where "ldquo = 0x201C"
definition rdquo :: "16 word" where "rdquo = 0x201D"

text \<open>An optional string field in a boolean position: absent and empty are both false.\<close>

definition truthy :: "jsstring option \<Rightarrow> bool" where
  "truthy v = (case v of None \<Rightarrow> False | Some s \<Rightarrow> s \<noteq> [])"

text \<open>\<open>v || ""\<close> on an optional string.\<close>

definition orEmpty :: "jsstring option \<Rightarrow> jsstring" where
  "orEmpty v = (case v of None \<Rightarrow> [] | Some s \<Rightarrow> s)"

definition str_includes :: "jsstring \<Rightarrow> jsstring \<Rightarrow> bool" where
  "str_includes hay needle = sublist needle hay"

definition startsWith :: "jsstring \<Rightarrow> jsstring \<Rightarrow> bool" where
  "startsWith s p = prefix p s"

text \<open>
  White space as \<open>String.prototype.trim\<close> and the regular expression class \<open>\s\<close>
  know it: the WhiteSpace and LineTerminator code points.
\<close>

definition isWhite :: "16 word \<Rightarrow> bool" where
  "isWhite c = (c = 0x09 \<or> c = 0x0A \<or> c = 0x0B \<or> c = 0x0C \<or> c = 0x0D \<or> c = 0x20
      \<or> c = 0xA0 \<or> c = 0x1680 \<or> (0x2000 \<le> c \<and> c \<le> 0x200A) \<or> c = 0x2028
      \<or> c = 0x2029 \<or> c = 0x202F \<or> c = 0x205F \<or> c = 0x3000 \<or> c = 0xFEFF)"

definition trim :: "jsstring \<Rightarrow> jsstring" where
  "trim s = rev (dropWhile isWhite (rev (dropWhile isWhite s)))"

text \<open>
  \<open>String.prototype.toLowerCase\<close> follows the Unicode case tables, which are not part
  of the program: the operations that call it take it as the parameter \<open>toLowerCase\<close>.
  \<open>asciiLower\<close> is what it does on strings of ASCII characters.
\<close>

definition asciiLower :: "jsstring \<Rightarrow> jsstring" where
  "asciiLower s = map (\<lambda>c. if 0x41 \<le> c \<and> c \<le> 0x5A then c + 0x20 else c) s"

text \<open>\<open>Array.prototype.join\<close>.\<close>

fun join :: "jsstring \<Rightarrow> jsstring list \<Rightarrow> jsstring" where
  "join sep [] = []"
| "join sep [x] = x"
| "join sep (x # y # ys) = x @ sep @ join sep (y # ys)"

text \<open>
  \<open>String(n)\<close> on an integer below \<open>10^21\<close> in absolute value: its decimal digits,
  with a minus sign when negative.
\<close>

fun digits :: "nat \<Rightarrow> jsstring" where
  "digits n = (if n < 10 then [0x30 + of_nat n] else digits (n div 10) @ [0x30 + of_nat (n mod 10)])"

declare digits.simps [simp del]

definition String_number :: "int \<Rightarrow> jsstring" where
  "String_number n = (if n < 0 then 0x2D # digits (nat (- n)) else digits (nat n))"

section \<open>Addition of doubles\<close>

text \<open>
  A number of the source is an IEEE 754 double, with a significand of 53 bits. The
  double nearest to an integer \<open>x\<close> is \<open>x\<close> itself when \<open>x\<close> has at most 53 bits;
  otherwise \<open>x\<close> is rounded at the bit below the 53rd, a tie going to the even
  significand.
\<close>

fun bit_length :: "nat \<Rightarrow> nat" where
  "bit_length n = (if n = 0 then 0 else Suc (bit_length (n div 2)))"

declare bit_length.simps [simp del]

definition round_double :: "int \<Rightarrow> int" where
  "round_double x =
     (let m = nat \<bar>x\<bar>; e = bit_length m
      in if e \<le> 53 then x
         else (let u = 2 ^ (e - 53); q = m div u; r = m mod u;
                   q' = (if u < 2 * r \<or> (2 * r = u \<and> odd q) then q + 1 else q)
               in sgn x * int (q' * u)))"

text \<open>
  The values of a running total: a double that is an integer, the two infinities, and
  not-a-number. The result of an operation whose exact value is the integer \<open>x\<close> is
  the rounded \<open>x\<close>, or an infinity when that reaches \<open>2^1024\<close>.
\<close>

datatype number = Finite int | PosInfinity | NegInfinity | NaN

definition number_of_exact :: "int \<Rightarrow> number" where
  "number_of_exact x =
     (let v = round_double x
      in if 2 ^ 1024 \<le> v then PosInfinity
         else if v \<le> - (2 ^ 1024) then NegInfinity
         else Finite v)"

text \<open>The operator \<open>+\<close> on two numbers.\<close>

fun plus_number :: "number \<Rightarrow> number \<Rightarrow> number" where
  "plus_number (Finite a) (Finite b) = number_of_exact (a + b)"
| "plus_number NaN b = NaN"
| "plus_number a NaN = NaN"
| "plus_number PosInfinity NegInfinity = NaN"
| "plus_number NegInfinity PosInfinity = NaN"
| "plus_number PosInfinity b = PosInfinity"
| "plus_number a PosInfinity = PosInfinity"
| "plus_number NegInfinity b = NegInfinity"
| "plus_number a NegInfinity = NegInfinity"

section \<open>Utilities\<close>

definition clamp :: "int \<Rightarrow> int \<Rightarrow> int \<Rightarrow> int" where
  "clamp n lo hi = min hi (max lo n)"

text \<open>\<open>Array.prototype.slice(start, end)\<close>: a negative index counts from the end.\<close>

definition slice :: "'a list \<Rightarrow> int \<Rightarrow> int \<Rightarrow> 'a list" where
  "slice xs start end =
     (let len = int (length xs);
          k = (if start < 0 then max (len + start) 0 else min start len);
          final = (if end < 0 then max (len + end) 0 else min end len)
      in take (nat (final - k)) (drop (nat k) xs))"

section \<open>Data model\<close>

datatype TxnType = Allocation | Expense | Revenue | Transfer

record Transaction =
  t_id :: jsstring
  t_date :: jsstring
  t_type :: TxnType
  t_amountCents :: int
  t_vendor :: "jsstring option"
  t_memo :: "jsstring option"
  t_eventId :: "jsstring option"
  t_billId :: "jsstring option"
  t_link :: "jsstring option"

record KPIs =
  currentBalanceCents :: number
  inflowYTD :: number
  outflowYTD :: number

text \<open>
  The seed events and bills. The explain-view composer reads their \<open>id\<close> and
  \<open>title\<close>; the remaining fields of the source records are read by no operation
  modelled here and are left out.
\<close>

record EventItem =
  e_id :: jsstring
  e_title :: jsstring

record Bill =
  b_id :: jsstring
  b_title :: jsstring

definition events :: "EventItem list" where
  "events =
     [\<lparr> e_id = js ''e-boba'', e_title = js ''Boba Recharge & Refresh'' \<rparr>,
      \<lparr> e_id = js ''e-crown'', e_title = js ''The Crown Affair (Poker Night)'' \<rparr>,
      \<lparr> e_id = js ''e-serve'', e_title = js ''Jump Rope for Her'' \<rparr>]"

definition bills :: "Bill list" where
  "bills =
     [\<lparr> b_id = js ''b-001'', b_title = js ''Boba Recharge Supplies'' \<rparr>,
      \<lparr> b_id = js ''b-002'', b_title = js ''The Crown Affair Prizes'' \<rparr>,
      \<lparr> b_id = js ''b-003'', b_title = js ''Service Event Equipment'' \<rparr>]"

definition txn :: "string \<Rightarrow> string \<Rightarrow> TxnType \<Rightarrow> int \<Rightarrow> string option \<Rightarrow> string option
    \<Rightarrow> string option \<Rightarrow> string option \<Rightarrow> string option \<Rightarrow> Transaction" where
  "txn i d ty a v m e b l =
     \<lparr> t_id = js i, t_date = js d, t_type = ty, t_amountCents = a, t_vendor = map_option js v,
       t_memo = map_option js m, t_eventId = map_option js e, t_billId = map_option js b,
       t_link = map_option js l \<rparr>"

definition transactions :: "Transaction list" where
  "transactions =
     [txn ''t-alloc-1'' ''2025-08-28'' Allocation 800000 None (Some ''Fall allocation'') None None None,
      txn ''t-alloc-2'' ''2025-10-01'' Allocation 200000 None (Some ''Supplemental allocation'')
        None None None,
      txn ''t-exp-1'' ''2025-11-06'' Expense (- 90000) (Some ''Boba Vendor LLC'')
        (Some ''Boba Recharge'') (Some ''e-boba'') (Some ''b-001'') (Some ''#''),
      txn ''t-exp-2'' ''2025-11-20'' Expense (- 48000) (Some ''Print House'')
        (Some ''Posters & table tents'') (Some ''e-boba'') None (Some ''#''),
      txn ''t-exp-3'' ''2025-11-19'' Expense (- 65000) (Some ''Decor Co'')
        (Some ''Poker Night decor'') (Some ''e-crown'') (Some ''b-002'') (Some ''#''),
      txn ''t-rev-1'' ''2025-11-21'' Revenue 12000 (Some ''Donations'')
        (Some ''Tip jar after boba'') None None None,
      txn ''t-tr-1'' ''2025-09-05'' Transfer (- 30000) None (Some ''Shared cost to another org'')
        None None None]"

section \<open>Filters, sorts, pagination\<close>

datatype TxnTypeOrAll = Only TxnType | All

record TxnFilter =
  f_type :: "TxnTypeOrAll option"
  f_from :: "jsstring option"
  f_to :: "jsstring option"
  f_search :: "jsstring option"
  f_eventId :: "jsstring option"
  f_billId :: "jsstring option"

definition noFilter :: TxnFilter where
  "noFilter = \<lparr> f_type = None, f_from = None, f_to = None, f_search = None,
                 f_eventId = None, f_billId = None \<rparr>"

definition filterTransactions ::
    "(jsstring \<Rightarrow> jsstring) \<Rightarrow> Transaction list \<Rightarrow> TxnFilter \<Rightarrow> Transaction list" where
  "filterTransactions toLowerCase rows f =
     (let needle = toLowerCase (trim (orEmpty (f_search f)))
      in filter (\<lambda>r.
           if (case f_type f of None \<Rightarrow> False
               | Some ft \<Rightarrow> ft \<noteq> All \<and> Only (t_type r) \<noteq> ft) then False
           else if (case f_from f of None \<Rightarrow> False
               | Some d \<Rightarrow> d \<noteq> [] \<and> t_date r < d) then False
           else if (case f_to f of None \<Rightarrow> False
               | Some d \<Rightarrow> d \<noteq> [] \<and> t_date r > d) then False
           else if (case f_eventId f of None \<Rightarrow> False
               | Some e \<Rightarrow> e \<noteq> [] \<and> t_eventId r \<noteq> Some e) then False
           else if (case f_billId f of None \<Rightarrow> False
               | Some b \<Rightarrow> b \<noteq> [] \<and> t_billId r \<noteq> Some b) then False
           else if needle \<noteq> [] then
             (let hay = toLowerCase (orEmpty (t_vendor r) @ js '' '' @ orEmpty (t_memo r))
              in if \<not> str_includes hay needle then False else True)
           else True) rows)"

datatype TxnSortKey = date_desc | date_asc | amount_desc | amount_asc

text \<open>
  \<open>Array.prototype.sort\<close> with a comparator is a stable sort: for a consistent
  comparator its result is fixed by the language, whatever algorithm the engine runs.
  The model is the stable insertion sort: an element goes in front of the first
  later element that the comparator does not put before it.
\<close>

fun insert_by :: "('a \<Rightarrow> 'a \<Rightarrow> int) \<Rightarrow> 'a \<Rightarrow> 'a list \<Rightarrow> 'a list" where
  "insert_by cmp x [] = [x]"
| "insert_by cmp x (y # ys) = (if cmp x y \<le> 0 then x # y # ys else y # insert_by cmp x ys)"

definition array_sort :: "('a \<Rightarrow> 'a \<Rightarrow> int) \<Rightarrow> 'a list \<Rightarrow> 'a list" where
  "array_sort cmp xs = foldr (insert_by cmp) xs []"

text \<open>
  Arrays are objects held by reference. The store maps a reference to the array's
  elements and counts the references handed out; \<open>slice()\<close> allocates a copy and
  \<open>sort\<close> overwrites the array it is called on.
\<close>

record 'a store =
  cells :: "nat \<Rightarrow> 'a list"
  next_ref :: nat

definition array_copy :: "'a store \<Rightarrow> nat \<Rightarrow> 'a store \<times> nat" where
  "array_copy h a =
     (let a' = next_ref h
      in (\<lparr> cells = (cells h)(a' := cells h a), next_ref = Suc a' \<rparr>, a'))"

definition array_sort_in_place :: "('a \<Rightarrow> 'a \<Rightarrow> int) \<Rightarrow> 'a store \<Rightarrow> nat \<Rightarrow> 'a store" where
  "array_sort_in_place cmp h a = h\<lparr> cells := (cells h)(a := array_sort cmp (cells h a)) \<rparr>"

definition cmp_date_desc :: "Transaction \<Rightarrow> Transaction \<Rightarrow> int" where
  "cmp_date_desc a b = (if t_date a < t_date b then 1 else if t_date a > t_date b then - 1 else 0)"

definition cmp_date_asc :: "Transaction \<Rightarrow> Transaction \<Rightarrow> int" where
  "cmp_date_asc a b = (if t_date a > t_date b then 1 else if t_date a < t_date b then - 1 else 0)"

definition cmp_amount_desc :: "Transaction \<Rightarrow> Transaction \<Rightarrow> int" where
  "cmp_amount_desc a b = t_amountCents b - t_amountCents a"

definition cmp_amount_asc :: "Transaction \<Rightarrow> Transaction \<Rightarrow> int" where
  "cmp_amount_asc a b = t_amountCents a - t_amountCents b"

fun comparator :: "TxnSortKey \<Rightarrow> Transaction \<Rightarrow> Transaction \<Rightarrow> int" where
  "comparator date_desc = cmp_date_desc"
| "comparator date_asc = cmp_date_asc"
| "comparator amount_desc = cmp_amount_desc"
| "comparator amount_asc = cmp_amount_asc"

definition sortTransactions ::
    "Transaction store \<Rightarrow> nat \<Rightarrow> TxnSortKey \<Rightarrow> Transaction store \<times> nat" where
  "sortTransactions h rows key =
     (let (h1, arr) = array_copy h rows;
          h2 = array_sort_in_place (comparator key) h1 arr
      in (h2, arr))"

text \<open>The array that \<open>sortTransactions\<close> returns, for a caller that holds \<open>rows\<close> by value.\<close>

definition sorted_rows :: "Transaction list \<Rightarrow> TxnSortKey \<Rightarrow> Transaction list" where
  "sorted_rows rows key =
     (let h = \<lparr> cells = (\<lambda>_. [])(0 := rows), next_ref = 1 \<rparr>;
          (h', arr) = sortTransactions h 0 key
      in cells h' arr)"

record 'a page_result =
  pr_page :: int
  pr_pageSize :: int
  pr_total :: int
  pr_pages :: int
  pr_rows :: "'a list"

definition paginate :: "'a list \<Rightarrow> int \<Rightarrow> int \<Rightarrow> 'a page_result" where
  "paginate rows page pageSize =
     (let total = int (length rows);
          pages = max 1 \<lceil>real_of_int total / real_of_int (max 1 pageSize)\<rceil>;
          p = clamp page 1 pages;
          start = (p - 1) * pageSize;
          end = min (start + pageSize) total
      in \<lparr> pr_page = p, pr_pageSize = pageSize, pr_total = total, pr_pages = pages,
           pr_rows = slice rows start end \<rparr>)"

section \<open>KPIs\<close>

text \<open>
  The loop of \<open>computeKPIs\<close> over the rows, on the triple (inflow, outflow, balance).
  The amount of a row is an integer number of cents, itself a double; each \<open>+=\<close> is
  an addition of doubles.
\<close>

fun kpi_loop :: "jsstring \<Rightarrow> Transaction list \<Rightarrow> number \<times> number \<times> number
    \<Rightarrow> number \<times> number \<times> number" where
  "kpi_loop yStr [] acc = acc"
| "kpi_loop yStr (r # rows) (inflow, outflow, balance) =
     (let balance' = plus_number balance (Finite (t_amountCents r))
      in if startsWith (t_date r) yStr then
           (if t_amountCents r \<ge> 0
            then kpi_loop yStr rows (plus_number inflow (Finite (t_amountCents r)), outflow, balance')
            else kpi_loop yStr rows (inflow, plus_number outflow (Finite (t_amountCents r)), balance'))
         else kpi_loop yStr rows (inflow, outflow, balance'))"

text \<open>\<open>nowYear\<close> is what \<open>new Date().getFullYear()\<close> reads from the clock.\<close>

definition computeKPIs :: "int \<Rightarrow> Transaction list \<Rightarrow> int option \<Rightarrow> KPIs" where
  "computeKPIs nowYear rows year =
     (let y = (case year of None \<Rightarrow> nowYear | Some v \<Rightarrow> v);
          yStr = String_number y;
          (inflow, outflow, balance) = kpi_loop yStr rows (Finite 0, Finite 0, Finite 0)
      in \<lparr> currentBalanceCents = balance, inflowYTD = inflow, outflowYTD = outflow \<rparr>)"

section \<open>CSV builder\<close>







section \<open>Explain-this-view composer\<close>

fun labelTxnType :: "TxnType \<Rightarrow> jsstring" where
  "labelTxnType Allocation = js ''allocations''"
| "labelTxnType Expense = js ''expenses''"
| "labelTxnType Revenue = js ''revenues''"
| "labelTxnType Transfer = js ''transfers''"

fun sortLabel :: "TxnSortKey \<Rightarrow> jsstring" where
  "sortLabel date_desc = js ''most recent first''"
| "sortLabel date_asc = js ''oldest first''"
| "sortLabel amount_desc = js ''highest amount first''"
| "sortLabel amount_asc = js ''lowest amount first''"

text \<open>
  \<open>sentence.replace(/\s+,/g, ",")\<close>: scanning from the left, a maximal run of white
  space that a comma follows is replaced, with the comma, by the comma alone.
\<close>

function tidy :: "jsstring \<Rightarrow> jsstring" where
  "tidy [] = []"
| "tidy (c # cs) =
     (if isWhite c then
        (case dropWhile isWhite cs of
           [] \<Rightarrow> c # tidy cs
         | d # ds \<Rightarrow> if d = comma then comma # tidy ds else c # tidy cs)
      else c # tidy cs)"
  by pat_completeness auto
termination
proof (relation "measure length")
  show "wf (measure length)" by simp
next
  fix c :: "16 word" and cs x21 x22
  assume "dropWhile isWhite cs = x21 # x22"
  then have "length (x21 # x22) \<le> length cs"
    by (metis length_dropWhile_le)
  then show "(x22, c # cs) \<in> measure length" by simp
qed simp_all

definition explainTransactionsView :: "TxnFilter \<Rightarrow> TxnSortKey \<Rightarrow> jsstring" where
  "explainTransactionsView f sortKey =
     (let parts0 = [case f_type f of None \<Rightarrow> js ''all transaction types''
                    | Some All \<Rightarrow> js ''all transaction types''
                    | Some (Only t) \<Rightarrow> labelTxnType t];
          parts1 = parts0 @
            (if truthy (f_from f) \<and> truthy (f_to f)
               then [js ''from '' @ orEmpty (f_from f) @ js '' to '' @ orEmpty (f_to f)]
             else if truthy (f_from f) then [js ''from '' @ orEmpty (f_from f)]
             else if truthy (f_to f) then [js ''up to '' @ orEmpty (f_to f)]
             else []);
          parts2 = parts1 @
            (if truthy (f_eventId f)
               then [js ''for event '' @ [ldquo] @
                     (case find (\<lambda>e. Some (e_id e) = f_eventId f) events of
                        Some ev \<Rightarrow> e_title ev | None \<Rightarrow> orEmpty (f_eventId f)) @ [rdquo]]
             else []);
          parts3 = parts2 @
            (if truthy (f_billId f)
               then [js ''linked to bill '' @ [ldquo] @
                     (case find (\<lambda>x. Some (b_id x) = f_billId f) bills of
                        Some b \<Rightarrow> b_title b | None \<Rightarrow> orEmpty (f_billId f)) @ [rdquo]]
             else []);
          parts = parts3 @
            (if truthy (f_search f) \<and> trim (orEmpty (f_search f)) \<noteq> []
               then [js ''matching '' @ [ldquo] @ trim (orEmpty (f_search f)) @ [rdquo]]
             else []);
          sentence = js ''Showing '' @ join (js '', '') parts @
            (if sortLabel sortKey \<noteq> [] then js '', '' @ sortLabel sortKey else []) @ js ''.''
      in tidy sentence)"

section \<open>High-level query\<close>

record TxnQuery =
  q_filter :: TxnFilter
  q_sort :: TxnSortKey
  q_page :: int
  q_pageSize :: int

definition queryTransactions :: "(jsstring \<Rightarrow> jsstring) \<Rightarrow> TxnQuery \<Rightarrow> Transaction page_result" where
  "queryTransactions toLowerCase q =
     (let filtered = filterTransactions toLowerCase transactions (q_filter q);
          sorted = sorted_rows filtered (q_sort q)
      in paginate sorted (q_page q) (q_pageSize q))"

section \<open>The explain-view sentence, as the specification words it\<close>

text \<open>
  The clauses in their fixed order: type, date range, event link, bill link, quoted
  search, sort. The date, link and search clauses are present only when their filter
  option is.
\<close>

definition type_clause :: "TxnFilter \<Rightarrow> jsstring" where
  "type_clause f = (case f_type f of Some (Only t) \<Rightarrow> labelTxnType t
                                   | _ \<Rightarrow> js ''all transaction types'')"

definition date_clause :: "TxnFilter \<Rightarrow> jsstring list" where
  "date_clause f =
     (case (truthy (f_from f), truthy (f_to f)) of
        (True, True) \<Rightarrow> [js ''from '' @ orEmpty (f_from f) @ js '' to '' @ orEmpty (f_to f)]
      | (True, False) \<Rightarrow> [js ''from '' @ orEmpty (f_from f)]
      | (False, True) \<Rightarrow> [js ''up to '' @ orEmpty (f_to f)]
      | (False, False) \<Rightarrow> [])"

definition event_name :: "jsstring \<Rightarrow> jsstring" where
  "event_name i = (case find (\<lambda>e. e_id e = i) events of Some ev \<Rightarrow> e_title ev | None \<Rightarrow> i)"

definition bill_name :: "jsstring \<Rightarrow> jsstring" where
  "bill_name i = (case find (\<lambda>b. b_id b = i) bills of Some b \<Rightarrow> b_title b | None \<Rightarrow> i)"

definition event_clause :: "TxnFilter \<Rightarrow> jsstring list" where
  "event_clause f =
     (if truthy (f_eventId f)
      then [js ''for event '' @ [ldquo] @ event_name (orEmpty (f_eventId f)) @ [rdquo]] else [])"

definition bill_clause :: "TxnFilter \<Rightarrow> jsstring list" where
  "bill_clause f =
     (if truthy (f_billId f)
      then [js ''linked to bill '' @ [ldquo] @ bill_name (orEmpty (f_billId f)) @ [rdquo]] else [])"

definition search_clause :: "TxnFilter \<Rightarrow> jsstring list" where
  "search_clause f =
     (if trim (orEmpty (f_search f)) \<noteq> []
      then [js ''matching '' @ [ldquo] @ trim (orEmpty (f_search f)) @ [rdquo]] else [])"

definition explain_clauses :: "TxnFilter \<Rightarrow> TxnSortKey \<Rightarrow> jsstring list" where
  "explain_clauses f k =
     [type_clause f] @ date_clause f @ event_clause f @ bill_clause f @ search_clause f
       @ [sortLabel k]"

definition assembled_sentence :: "TxnFilter \<Rightarrow> TxnSortKey \<Rightarrow> jsstring" where
  "assembled_sentence f k = js ''Showing '' @ join (js '', '') (explain_clauses f k) @ js ''.''"

text \<open>A stray space before a comma: a white-space character with a comma right after it.\<close>

fun stray :: "jsstring \<Rightarrow> bool" where
  "stray (a # b # cs) = ((isWhite a \<and> b = comma) \<or> stray (b # cs))"
| "stray [a] = False"
| "stray [] = False"

text \<open>The filter of the specification's explain-sentence scenario.\<close>

definition example_filter :: TxnFilter where
  "example_filter = \<lparr> f_type = Some (Only Expense), f_from = Some (js ''2025-11-01''),
      f_to = Some (js ''2025-11-30''), f_search = Some (js ''boba''),
      f_eventId = None, f_billId = None \<rparr>"


section \<open>A standard CSV grammar\<close>

text \<open>
  The grammar of RFC 4180 with a delimiter character in place of the comma, and with
  the line breaks that CSV readers accept: a carriage return and a newline together,
  or either one alone. A file is records separated by line breaks, with an optional
  line break after the last one; a record is fields separated by the delimiter; a
  field is either plain text without delimiter, double quote or line break, or text
  between double quotes in which a double quote is written twice and the other
  characters, line breaks included, stand for themselves. The reader below is the
  deterministic parser of that grammar; \<open>None\<close> is a syntax error. \<open>AfterCR\<close> is the
  start of a record right after a carriage return, where a newline still belongs to
  the line break.
\<close>

definition cr :: "16 word" where "cr = 0x0D"











definition crs :: "jsstring \<Rightarrow> nat" where
  "crs s = length (filter (\<lambda>c. c = cr) s)"



section \<open>The year of a date and the sums of the specification\<close>

text \<open>
  The year that a date string starts with: its first four characters, read as a
  decimal number when all four are digits.
\<close>

definition digit_value :: "16 word \<Rightarrow> int option" where
  "digit_value c = (if 0x30 \<le> c \<and> c \<le> 0x39 then Some (int (unat c) - 0x30) else None)"

definition year_of :: "jsstring \<Rightarrow> int option" where
  "year_of date =
     (case date of
        a # b # c # d # rest \<Rightarrow>
          (case (digit_value a, digit_value b, digit_value c, digit_value d) of
             (Some p, Some q, Some r, Some s) \<Rightarrow> Some (1000 * p + 100 * q + 10 * r + s)
           | _ \<Rightarrow> None)
      | _ \<Rightarrow> None)"

definition dated_in :: "int \<Rightarrow> Transaction list \<Rightarrow> Transaction list" where
  "dated_in y rows = filter (\<lambda>r. year_of (t_date r) = Some y) rows"

text \<open>The exact sum of the amounts of a list of transactions.\<close>

definition total :: "Transaction list \<Rightarrow> int" where
  "total rows = sum_list (map t_amountCents rows)"

text \<open>The sum of the absolute values of the amounts.\<close>

definition abs_total :: "Transaction list \<Rightarrow> int" where
  "abs_total rows = sum_list (map (\<lambda>r. \<bar>t_amountCents r\<bar>) rows)"

text \<open>The amounts of a list of transactions as numbers, added from the left.\<close>

definition running_total :: "Transaction list \<Rightarrow> number" where
  "running_total rows = foldl plus_number (Finite 0) (map (\<lambda>r. Finite (t_amountCents r)) rows)"

text \<open>
  A ledger over three years: the seed transactions, one of the year before, and one
  whose date starts with the digits 2025 without being a day of that year.
\<close>

definition ledger_rows :: "Transaction list" where
  "ledger_rows = transactions @
     [txn ''t-old-1'' ''2024-12-31'' Revenue 5000 None None None None None,
      txn ''t-old-2'' ''2024-06-30'' Expense (- 700) None None None None None,
      txn ''t-far-1'' ''20250-01-01'' Revenue 40 None None None None None]"

text \<open>A revenue of the year 9990, whose date starts with the digits of 999.\<close>

definition far_rows :: "Transaction list" where
  "far_rows = [txn ''t-far-2'' ''9990-01-01'' Revenue 5 None None None None None]"

text \<open>Two allocations whose sum has 54 significant bits.\<close>

definition large_rows :: "Transaction list" where
  "large_rows =
     [txn ''t-big-1'' ''2025-01-01'' Allocation 9007199254740992 None None None None None,
      txn ''t-big-2'' ''2025-01-02'' Allocation 1 None None None None None]"

section \<open>Percent-encoding\<close>

datatype js_error = TypeError | URIError

text \<open>Append to a result that may be an exception.\<close>

definition then_append :: "jsstring \<Rightarrow> js_error + jsstring \<Rightarrow> js_error + jsstring" where
  "then_append p r = (case r of Inl e \<Rightarrow> Inl e | Inr s \<Rightarrow> Inr (p @ s))"

definition percent :: "16 word" where "percent = 0x25"
definition slash :: "16 word" where "slash = 0x2F"
definition backslash :: "16 word" where "backslash = 0x5C"
definition dot :: "16 word" where "dot = 0x2E"

definition isLead :: "16 word \<Rightarrow> bool" where
  "isLead u = (0xD800 \<le> u \<and> u \<le> 0xDBFF)"

definition isTrail :: "16 word \<Rightarrow> bool" where
  "isTrail u = (0xDC00 \<le> u \<and> u \<le> 0xDFFF)"

text \<open>The code point of a surrogate pair, and the code units of a code point.\<close>

definition pair_code_point :: "16 word \<Rightarrow> 16 word \<Rightarrow> nat" where
  "pair_code_point lead trail = (unat lead - 0xD800) * 0x400 + (unat trail - 0xDC00) + 0x10000"

definition utf16_encode :: "nat \<Rightarrow> jsstring" where
  "utf16_encode cp =
     (if cp < 0x10000 then [of_nat cp]
      else [of_nat (0xD800 + (cp - 0x10000) div 0x400), of_nat (0xDC00 + (cp - 0x10000) mod 0x400)])"

text \<open>\<open>String.prototype.isWellFormed\<close>: no surrogate without its partner.\<close>

fun wellFormed :: "jsstring \<Rightarrow> bool" where
  "wellFormed [] = True"
| "wellFormed [c] = (\<not> isLead c \<and> \<not> isTrail c)"
| "wellFormed (c # c2 # cs) =
     (if isLead c then isTrail c2 \<and> wellFormed cs
      else \<not> isTrail c \<and> wellFormed (c2 # cs))"

definition utf8_encode :: "nat \<Rightarrow> nat list" where
  "utf8_encode cp =
     (if cp < 0x80 then [cp]
      else if cp < 0x800 then [0xC0 + cp div 0x40, 0x80 + cp mod 0x40]
      else if cp < 0x10000 then
        [0xE0 + cp div 0x1000, 0x80 + (cp div 0x40) mod 0x40, 0x80 + cp mod 0x40]
      else [0xF0 + cp div 0x40000, 0x80 + (cp div 0x1000) mod 0x40,
            0x80 + (cp div 0x40) mod 0x40, 0x80 + cp mod 0x40])"

text \<open>
  The one code point that a sequence of octets is the valid UTF-8 encoding of: no
  overlong form, no surrogate, nothing above U+10FFFF.
\<close>

definition cont :: "nat \<Rightarrow> bool" where
  "cont b = (0x80 \<le> b \<and> b \<le> 0xBF)"

fun utf8_decode :: "nat list \<Rightarrow> nat option" where
  "utf8_decode [b0, b1] =
     (if 0xC2 \<le> b0 \<and> b0 \<le> 0xDF \<and> cont b1
      then Some ((b0 - 0xC0) * 0x40 + (b1 - 0x80)) else None)"
| "utf8_decode [b0, b1, b2] =
     (if 0xE0 \<le> b0 \<and> b0 \<le> 0xEF \<and> cont b1 \<and> cont b2
         \<and> (b0 = 0xE0 \<longrightarrow> 0xA0 \<le> b1) \<and> (b0 = 0xED \<longrightarrow> b1 \<le> 0x9F)
      then Some ((b0 - 0xE0) * 0x1000 + (b1 - 0x80) * 0x40 + (b2 - 0x80)) else None)"
| "utf8_decode [b0, b1, b2, b3] =
     (if 0xF0 \<le> b0 \<and> b0 \<le> 0xF4 \<and> cont b1 \<and> cont b2 \<and> cont b3
         \<and> (b0 = 0xF0 \<longrightarrow> 0x90 \<le> b1) \<and> (b0 = 0xF4 \<longrightarrow> b1 \<le> 0x8F)
      then Some ((b0 - 0xF0) * 0x40000 + (b1 - 0x80) * 0x1000 + (b2 - 0x80) * 0x40 + (b3 - 0x80))
      else None)"
| "utf8_decode _ = None"

definition hex_digit :: "nat \<Rightarrow> 16 word" where
  "hex_digit n = (if n < 10 then 0x30 + of_nat n else 0x41 + of_nat (n - 10))"

text \<open>An octet as \<open>%XX\<close>, in upper-case hexadecimal.\<close>

definition pct :: "nat \<Rightarrow> jsstring" where
  "pct b = [percent, hex_digit (b div 16), hex_digit (b mod 16)]"

definition hex_value :: "16 word \<Rightarrow> nat option" where
  "hex_value c =
     (if 0x30 \<le> c \<and> c \<le> 0x39 then Some (unat c - 0x30)
      else if 0x41 \<le> c \<and> c \<le> 0x46 then Some (unat c - 0x41 + 10)
      else if 0x61 \<le> c \<and> c \<le> 0x66 then Some (unat c - 0x61 + 10)
      else None)"

definition parse_hex_octet :: "16 word \<Rightarrow> 16 word \<Rightarrow> nat option" where
  "parse_hex_octet h1 h2 =
     (case (hex_value h1, hex_value h2) of
        (Some a, Some b) \<Rightarrow> Some (16 * a + b)
      | _ \<Rightarrow> None)"

text \<open>The characters that \<open>encodeURIComponent\<close> leaves as they are: \<open>A-Z a-z 0-9 - _ . ! ~ * ' ( )\<close>.\<close>

definition unreserved :: "16 word \<Rightarrow> bool" where
  "unreserved c =
     ((0x41 \<le> c \<and> c \<le> 0x5A) \<or> (0x61 \<le> c \<and> c \<le> 0x7A) \<or> (0x30 \<le> c \<and> c \<le> 0x39)
      \<or> c = 0x2D \<or> c = 0x5F \<or> c = 0x2E \<or> c = 0x21 \<or> c = 0x7E \<or> c = 0x2A \<or> c = 0x27
      \<or> c = 0x28 \<or> c = 0x29)"

text \<open>
  \<open>encodeURIComponent\<close>, the Encode operation of the language: an unreserved code
  unit stays; any other code point is written as the escapes of its UTF-8 octets; a
  surrogate without its partner throws URIError.
\<close>

fun encodeURIComponent :: "jsstring \<Rightarrow> js_error + jsstring" where
  "encodeURIComponent [] = Inr []"
| "encodeURIComponent (c # cs) =
     (if unreserved c then then_append [c] (encodeURIComponent cs)
      else if isTrail c then Inl URIError
      else if isLead c then
        (case cs of
           [] \<Rightarrow> Inl URIError
         | c2 # cs' \<Rightarrow>
             if isTrail c2
             then then_append (concat (map pct (utf8_encode (pair_code_point c c2))))
                    (encodeURIComponent cs')
             else Inl URIError)
      else then_append (concat (map pct (utf8_encode (unat c)))) (encodeURIComponent cs))"

text \<open>The number of leading 1 bits of an octet (5 stands for more than 4).\<close>

definition leading_ones :: "nat \<Rightarrow> nat" where
  "leading_ones b =
     (if b < 0x80 then 0 else if b < 0xC0 then 1 else if b < 0xE0 then 2
      else if b < 0xF0 then 3 else if b < 0xF8 then 4 else 5)"

text \<open>The octets of the next \<open>j\<close> escapes, when the string goes on with that many.\<close>

fun continuation :: "nat \<Rightarrow> jsstring \<Rightarrow> nat list option" where
  "continuation 0 s = Some []"
| "continuation (Suc j) (p # h1 # h2 # rest) =
     (if p = percent then
        (case parse_hex_octet h1 h2 of
           None \<Rightarrow> None
         | Some b \<Rightarrow> map_option (Cons b) (continuation j rest))
      else None)"
| "continuation (Suc j) _ = None"

text \<open>
  \<open>decodeURIComponent\<close>, the Decode operation of the language with no escape
  preserved: a malformed escape and an escape sequence that is not valid UTF-8 throw
  URIError.
\<close>

function decodeURIComponent :: "jsstring \<Rightarrow> js_error + jsstring" where
  "decodeURIComponent [] = Inr []"
| "decodeURIComponent (c # cs) =
     (if c \<noteq> percent then then_append [c] (decodeURIComponent cs)
      else
        (case cs of
           h1 # h2 # rest \<Rightarrow>
             (case parse_hex_octet h1 h2 of
                None \<Rightarrow> Inl URIError
              | Some b \<Rightarrow>
                  if leading_ones b = 0 then then_append [of_nat b] (decodeURIComponent rest)
                  else if leading_ones b = 1 \<or> leading_ones b > 4 then Inl URIError
                  else
                    (case continuation (leading_ones b - 1) rest of
                       None \<Rightarrow> Inl URIError
                     | Some octets \<Rightarrow>
                         (case utf8_decode (b # octets) of
                            None \<Rightarrow> Inl URIError
                          | Some v \<Rightarrow>
                              then_append (utf16_encode v)
                                (decodeURIComponent (drop (3 * (leading_ones b - 1)) rest)))))
         | _ \<Rightarrow> Inl URIError))"
  by pat_completeness auto
termination
  by (relation "measure length") auto

section \<open>Router\<close>

datatype ParsedRoute =
    Home | Events | EventDetail jsstring | Ledger | Bills | BillDetail jsstring
  | Proposals | Team | Admin

fun hrefFor :: "ParsedRoute \<Rightarrow> js_error + jsstring" where
  "hrefFor Home = Inr (js ''/'')"
| "hrefFor Events = Inr (js ''/events'')"
| "hrefFor (EventDetail i) = then_append (js ''/events/'') (encodeURIComponent i)"
| "hrefFor Ledger = Inr (js ''/ledger'')"
| "hrefFor Bills = Inr (js ''/bills'')"
| "hrefFor (BillDetail i) = then_append (js ''/bills/'') (encodeURIComponent i)"
| "hrefFor Proposals = Inr (js ''/proposals'')"
| "hrefFor Team = Inr (js ''/team'')"
| "hrefFor Admin = Inr (js ''/admin'')"

text \<open>
  \<open>new URL(input, base)\<close> and its \<open>pathname\<close>, after the URL standard. The part of
  the standard's parser that reads a scheme, an authority (credentials, host, port)
  or works from another base is not part of the program: it is the parameter
  \<open>platform\<close>, which gives the pathname of such an input or \<open>None\<close> where the parser
  fails and \<open>new URL\<close> throws TypeError. What is modelled here is the parser on an
  input without scheme and authority against the base \<open>https://example.com\<close>:
  leading and trailing C0 controls and spaces are stripped and tabs and newlines
  removed; a first slash or backslash is skipped; the path ends at the first \<open>?\<close> or
  \<open>#\<close>; it is cut into segments at slashes and backslashes; each segment is
  percent-encoded with the path percent-encode set; dot segments are resolved.
\<close>

definition c0_or_space :: "16 word \<Rightarrow> bool" where
  "c0_or_space c = (c \<le> 0x20)"

definition tab_or_newline :: "16 word \<Rightarrow> bool" where
  "tab_or_newline c = (c = 0x09 \<or> c = 0x0A \<or> c = 0x0D)"

definition url_preprocess :: "jsstring \<Rightarrow> jsstring" where
  "url_preprocess s =
     filter (\<lambda>c. \<not> tab_or_newline c)
       (rev (dropWhile c0_or_space (rev (dropWhile c0_or_space s))))"

definition ascii_alpha :: "16 word \<Rightarrow> bool" where
  "ascii_alpha c = ((0x41 \<le> c \<and> c \<le> 0x5A) \<or> (0x61 \<le> c \<and> c \<le> 0x7A))"

definition scheme_char :: "16 word \<Rightarrow> bool" where
  "scheme_char c =
     (ascii_alpha c \<or> (0x30 \<le> c \<and> c \<le> 0x39) \<or> c = 0x2B \<or> c = 0x2D \<or> c = 0x2E)"

definition has_scheme :: "jsstring \<Rightarrow> bool" where
  "has_scheme s =
     (case s of
        [] \<Rightarrow> False
      | a # rest \<Rightarrow>
          ascii_alpha a \<and>
          (case dropWhile scheme_char rest of [] \<Rightarrow> False | c # _ \<Rightarrow> c = 0x3A))"

definition is_slash :: "16 word \<Rightarrow> bool" where
  "is_slash c = (c = slash \<or> c = backslash)"

definition has_authority :: "jsstring \<Rightarrow> bool" where
  "has_authority s = (case s of a # b # _ \<Rightarrow> is_slash a \<and> is_slash b | _ \<Rightarrow> False)"

text \<open>
  The path percent-encode set: the C0 controls, everything above \<open>~\<close>, and space
  \<open>" # < > ? ^ ` { }\<close>.
\<close>

definition in_path_set :: "nat \<Rightarrow> bool" where
  "in_path_set cp =
     (cp \<le> 0x1F \<or> cp > 0x7E \<or> cp = 0x20 \<or> cp = 0x22 \<or> cp = 0x23 \<or> cp = 0x3C \<or> cp = 0x3E
      \<or> cp = 0x3F \<or> cp = 0x5E \<or> cp = 0x60 \<or> cp = 0x7B \<or> cp = 0x7D)"

text \<open>
  Percent-encoding of a segment. The input of the URL parser is a string of scalar
  values: a surrogate without its partner has become U+FFFD.
\<close>

fun path_encode :: "jsstring \<Rightarrow> jsstring" where
  "path_encode [] = []"
| "path_encode (c # cs) =
     (if isLead c then
        (case cs of
           [] \<Rightarrow> concat (map pct (utf8_encode 0xFFFD))
         | c2 # cs' \<Rightarrow>
             if isTrail c2
             then concat (map pct (utf8_encode (pair_code_point c c2))) @ path_encode cs'
             else concat (map pct (utf8_encode 0xFFFD)) @ path_encode cs)
      else if isTrail c then concat (map pct (utf8_encode 0xFFFD)) @ path_encode cs
      else if in_path_set (unat c) then concat (map pct (utf8_encode (unat c))) @ path_encode cs
      else c # path_encode cs)"

definition single_dot :: "jsstring \<Rightarrow> bool" where
  "single_dot b = (b = js ''.'' \<or> asciiLower b = js ''%2e'')"

definition double_dot :: "jsstring \<Rightarrow> bool" where
  "double_dot b =
     (b = js ''..'' \<or> asciiLower b = js ''.%2e'' \<or> asciiLower b = js ''%2e.''
      \<or> asciiLower b = js ''%2e%2e'')"

text \<open>\<open>String.prototype.split\<close> at the characters that satisfy \<open>sep\<close>.\<close>

fun split_at :: "(16 word \<Rightarrow> bool) \<Rightarrow> jsstring \<Rightarrow> jsstring list" where
  "split_at sep [] = [[]]"
| "split_at sep (c # cs) =
     (if sep c then [] # split_at sep cs
      else (case split_at sep cs of [] \<Rightarrow> [[c]] | p # ps \<Rightarrow> (c # p) # ps))"

text \<open>
  The path state of the parser over the buffers of the segments: every buffer but
  the last was ended by a slash.
\<close>

fun path_state :: "jsstring list \<Rightarrow> jsstring list \<Rightarrow> jsstring list" where
  "path_state path [] = path"
| "path_state path [b] =
     (if double_dot b then butlast path @ [[]]
      else if single_dot b then path @ [[]]
      else path @ [b])"
| "path_state path (b # bs) =
     path_state (if double_dot b then butlast path
                 else if single_dot b then path
                 else path @ [b]) bs"

definition relative_pathname :: "jsstring \<Rightarrow> jsstring" where
  "relative_pathname s =
     (let body = (case s of [] \<Rightarrow> [] | c # cs \<Rightarrow> if is_slash c then cs else c # cs);
          raw = takeWhile (\<lambda>c. c \<noteq> 0x3F \<and> c \<noteq> 0x23) body;
          buffers = map path_encode (split_at is_slash raw);
          path = path_state [] buffers
      in concat (map (\<lambda>seg. slash # seg) path))"

definition new_URL :: "(jsstring option \<Rightarrow> jsstring \<Rightarrow> jsstring option) \<Rightarrow> jsstring option
    \<Rightarrow> jsstring \<Rightarrow> jsstring option" where
  "new_URL platform base input =
     (let s = url_preprocess input
      in if has_scheme s then platform base input
         else (case base of
                 None \<Rightarrow> None
               | Some b \<Rightarrow>
                   if b \<noteq> js ''https://example.com'' \<or> has_authority s then platform base input
                   else Some (relative_pathname s)))"

text \<open>\<open>pathname.replace(/^\/+|\/+$/g, "")\<close>.\<close>

definition strip_slashes :: "jsstring \<Rightarrow> jsstring" where
  "strip_slashes s = rev (dropWhile (\<lambda>c. c = slash) (rev (dropWhile (\<lambda>c. c = slash) s)))"

definition routeOf :: "(jsstring option \<Rightarrow> jsstring \<Rightarrow> jsstring option) \<Rightarrow> jsstring
    \<Rightarrow> js_error + ParsedRoute" where
  "routeOf platform urlOrPath =
     (case (if str_includes urlOrPath (js ''://'')
            then new_URL platform None urlOrPath
            else new_URL platform (Some (js ''https://example.com'')) urlOrPath) of
        None \<Rightarrow> Inl TypeError
      | Some pathname \<Rightarrow>
          (let parts = filter (\<lambda>p. p \<noteq> [])
                         (split_at (\<lambda>c. c = slash) (strip_slashes pathname))
           in case parts of
                [] \<Rightarrow> Inr Home
              | p0 # ps \<Rightarrow>
                  if p0 = js ''events'' then
                    (case ps of
                       [] \<Rightarrow> Inr Events
                     | p1 # _ \<Rightarrow>
                         if p1 \<noteq> [] then map_sum id EventDetail (decodeURIComponent p1)
                         else Inr Events)
                  else if p0 = js ''ledger'' then Inr Ledger
                  else if p0 = js ''bills'' then
                    (case ps of
                       [] \<Rightarrow> Inr Bills
                     | p1 # _ \<Rightarrow>
                         if p1 \<noteq> [] then map_sum id BillDetail (decodeURIComponent p1)
                         else Inr Bills)
                  else if p0 = js ''proposals'' then Inr Proposals
                  else if p0 = js ''team'' then Inr Team
                  else if p0 = js ''admin'' then Inr Admin
                  else Inr Home))"

text \<open>A platform parser that accepts nothing, for evaluating the router on plain paths.\<close>

definition no_platform :: "jsstring option \<Rightarrow> jsstring \<Rightarrow> jsstring option" where
  "no_platform base input = None"

text \<open>
  The detail ids that a path can carry: not empty, not a dot segment, and without a
  lone surrogate.
\<close>

definition detail_id_ok :: "jsstring \<Rightarrow> bool" where
  "detail_id_ok i = (i \<noteq> [] \<and> i \<noteq> js ''.'' \<and> i \<noteq> js ''..'' \<and> wellFormed i)"

fun route_ok :: "ParsedRoute \<Rightarrow> bool" where
  "route_ok (EventDetail i) = detail_id_ok i"
| "route_ok (BillDetail i) = detail_id_ok i"
| "route_ok _ = True"

text \<open>The characters of an encoded component: unreserved ones and the percent sign.\<close>

definition url_safe :: "16 word \<Rightarrow> bool" where
  "url_safe c = (unreserved c \<or> c = percent)"


section \<open>Pathnames and their first segment\<close>






section \<open>Pagination: the page is clamped and the pages tile the list\<close>

lemma slice_nonneg:
  assumes "0 \<le> s" "0 \<le> e"
  shows "slice xs s e = take (nat e - nat s) (drop (nat s) xs)"
proof (cases "s \<le> int (length xs)")
  case True
  show ?thesis
  proof (cases "e \<le> int (length xs)")
    case True
    with \<open>s \<le> int (length xs)\<close> assms show ?thesis
      by (simp add: slice_def Let_def min_absorb1 nat_diff_distrib')
  next
    case False
    then have "length (drop (nat s) xs) \<le> nat e - nat s" using assms by simp
    then have "take (nat e - nat s) (drop (nat s) xs) = drop (nat s) xs" by simp
    moreover have "slice xs s e = drop (nat s) xs"
      using False True assms by (simp add: slice_def Let_def min_def nat_diff_distrib')
    ultimately show ?thesis by simp
  qed
next
  case False
  then have "drop (nat s) xs = []" using assms by simp
  moreover have "slice xs s e = []"
    using False assms by (simp add: slice_def Let_def min_def)
  ultimately show ?thesis by simp
qed

lemma chunks_take:
  "concat (map (\<lambda>k. take n (drop (k * n) xs)) [0..<m]) = take (m * n) xs"
proof (induction m)
  case 0 show ?case by simp
next
  case (Suc m)
  have "take (m * n) xs @ take n (drop (m * n) xs) = take (m * n + n) xs"
    by (simp add: take_add)
  with Suc show ?case by (simp add: add.commute)
qed

lemma upto_as_upt: "[1..int m] = map (\<lambda>k. int k + 1) [0..<m]"
proof (induction m)
  case 0 show ?case by simp
next
  case (Suc m)
  have "[1..int (Suc m)] = [1..int m] @ [int m + 1]"
    using upto_rec2[of 1 "int m + 1"] by (simp add: add.commute)
  with Suc show ?case by simp
qed

lemma paginate_pages: "pr_pages (paginate rows page pageSize)
   = max 1 \<lceil>real (length rows) / real_of_int (max 1 pageSize)\<rceil>"
  by (simp add: paginate_def Let_def)

lemma paginate_page: "pr_page (paginate rows page pageSize)
   = clamp page 1 (pr_pages (paginate rows page pageSize))"
  by (simp add: paginate_def Let_def)

lemma paginate_total: "pr_total (paginate rows page pageSize) = int (length rows)"
  by (simp add: paginate_def Let_def)

lemma paginate_rows: "pr_rows (paginate rows page pageSize)
   = (let p = pr_page (paginate rows page pageSize)
      in slice rows ((p - 1) * pageSize) (min ((p - 1) * pageSize + pageSize) (int (length rows))))"
  by (simp add: paginate_def Let_def)

lemma paginate_page_bounds:
  "1 \<le> pr_page (paginate rows page pageSize) \<and>
   pr_page (paginate rows page pageSize) \<le> pr_pages (paginate rows page pageSize)"
  by (simp add: paginate_page paginate_pages clamp_def)

lemma pages_cover:
  assumes "1 \<le> pageSize"
  shows "int (length rows) \<le> pr_pages (paginate rows page pageSize) * pageSize"
proof -
  let ?q = "\<lceil>real (length rows) / real_of_int pageSize\<rceil>"
  have ps: "0 < real_of_int pageSize" using assms by simp
  have "real (length rows) / real_of_int pageSize \<le> real_of_int ?q"
    by (rule le_of_int_ceiling)
  then have "real (length rows) \<le> real_of_int ?q * real_of_int pageSize"
    by (simp only: pos_divide_le_eq[OF ps])
  then have "real_of_int (int (length rows)) \<le> real_of_int (?q * pageSize)"
    by simp
  then have "int (length rows) \<le> ?q * pageSize"
    by (simp only: of_int_le_iff)
  also have "\<dots> \<le> max 1 ?q * pageSize"
    using assms by (simp add: mult_right_mono)
  finally show ?thesis using assms by (simp add: paginate_pages max_absorb2)
qed

lemma slice_page:
  assumes "1 \<le> pageSize" "1 \<le> p"
  shows "slice rows ((p - 1) * pageSize) (min ((p - 1) * pageSize + pageSize) (int (length rows)))
         = take (nat pageSize) (drop (nat (p - 1) * nat pageSize) rows)"
proof -
  have st: "0 \<le> (p - 1) * pageSize" using assms by simp
  have n: "nat ((p - 1) * pageSize) = nat (p - 1) * nat pageSize"
    using assms by (simp add: nat_mult_distrib)
  let ?s = "(p - 1) * pageSize"
  have e0: "0 \<le> min (?s + pageSize) (int (length rows))" using st assms by simp
  have "slice rows ?s (min (?s + pageSize) (int (length rows)))
        = take (nat (min (?s + pageSize) (int (length rows))) - nat ?s) (drop (nat ?s) rows)"
    by (rule slice_nonneg[OF st e0])
  also have "\<dots> = take (nat pageSize) (drop (nat ?s) rows)"
  proof (cases "?s + pageSize \<le> int (length rows)")
    case True
    then have "nat (min (?s + pageSize) (int (length rows))) - nat ?s = nat pageSize"
      using st assms by (simp add: min_absorb1 nat_add_distrib)
    then show ?thesis by simp
  next
    case False
    then have m: "min (?s + pageSize) (int (length rows)) = int (length rows)" by simp
    have "length (drop (nat ?s) rows) \<le> nat pageSize" using False st by simp
    then have "take (nat pageSize) (drop (nat ?s) rows) = drop (nat ?s) rows" by simp
    moreover have "take (nat (int (length rows)) - nat ?s) (drop (nat ?s) rows) = drop (nat ?s) rows"
      by simp
    ultimately show ?thesis using m by simp
  qed
  finally show ?thesis by (simp only: n)
qed

lemma paginate_rows_clamped:
  assumes "1 \<le> pageSize"
  shows "pr_rows (paginate rows page pageSize)
         = take (nat pageSize)
             (drop (nat (pr_page (paginate rows page pageSize) - 1) * nat pageSize) rows)"
proof -
  have "1 \<le> pr_page (paginate rows page pageSize)"
    using paginate_page_bounds[of rows page pageSize] by (rule conjunct1)
  from slice_page[OF assms this, of rows] show ?thesis
    by (simp only: paginate_rows Let_def)
qed

lemma paginate_rows_in_range:
  assumes "1 \<le> pageSize" "1 \<le> p" "p \<le> pr_pages (paginate rows page pageSize)"
  shows "pr_rows (paginate rows p pageSize)
         = take (nat pageSize) (drop (nat (p - 1) * nat pageSize) rows)"
proof -
  have pg: "pr_pages (paginate rows p pageSize) = pr_pages (paginate rows page pageSize)"
    by (simp add: paginate_pages)
  have cl: "pr_page (paginate rows p pageSize) = p"
    using assms by (simp add: paginate_page pg clamp_def)
  from paginate_rows_clamped[OF assms(1), of rows p] show ?thesis
    by (simp only: cl)
qed

lemma paginate_concat:
  assumes "1 \<le> pageSize"
  shows "concat (map (\<lambda>p. pr_rows (paginate rows p pageSize))
                  [1..pr_pages (paginate rows page pageSize)]) = rows"
proof -
  let ?P = "pr_pages (paginate rows page pageSize)"
  let ?m = "nat ?P"
  have P1: "1 \<le> ?P" by (simp add: paginate_pages)
  then have Pm: "?P = int ?m" by simp
  have each: "pr_rows (paginate rows (int k + 1) pageSize)
              = take (nat pageSize) (drop (k * nat pageSize) rows)" if "k < ?m" for k
    using paginate_rows_in_range[OF assms, of "int k + 1" rows page] that by simp
  have "map (\<lambda>p. pr_rows (paginate rows p pageSize)) [1..int ?m]
        = map (\<lambda>k. take (nat pageSize) (drop (k * nat pageSize) rows)) [0..<?m]"
    unfolding upto_as_upt using each by (simp add: comp_def)
  then have "concat (map (\<lambda>p. pr_rows (paginate rows p pageSize)) [1..int ?m])
        = take (?m * nat pageSize) rows"
    by (simp only: chunks_take)
  moreover have "length rows \<le> ?m * nat pageSize"
  proof -
    have "int (length rows) \<le> ?P * pageSize" by (rule pages_cover[OF assms])
    also have "\<dots> = int (?m * nat pageSize)" using P1 assms by simp
    finally show ?thesis by (simp only: of_nat_le_iff)
  qed
  ultimately show ?thesis using Pm by simp
qed

text \<open>
  C3. For every list, every page size of at least 1 and any requested page,
  \<open>paginate\<close> returns a page number within 1 and \<open>pages\<close>; \<open>pages\<close> is the larger of 1
  and the ceiling of the length over the page size; \<open>total\<close> is the length; the rows
  are the slice of the list for the clamped page; and the row slices of the pages
  1 to \<open>pages\<close>, concatenated, are the list.
\<close>

theorem paginate_invariants:
  assumes "1 \<le> pageSize"
  shows "1 \<le> pr_page (paginate S page pageSize)
       \<and> pr_page (paginate S page pageSize) \<le> pr_pages (paginate S page pageSize)
       \<and> pr_pages (paginate S page pageSize)
           = max 1 \<lceil>real (length S) / real_of_int pageSize\<rceil>
       \<and> pr_total (paginate S page pageSize) = int (length S)
       \<and> pr_rows (paginate S page pageSize)
           = take (nat pageSize)
               (drop (nat (pr_page (paginate S page pageSize) - 1) * nat pageSize) S)
       \<and> concat (map (\<lambda>p. pr_rows (paginate S p pageSize))
                   [1..pr_pages (paginate S page pageSize)]) = S"
proof (intro conjI)
  show "1 \<le> pr_page (paginate S page pageSize)"
    using paginate_page_bounds[of S page pageSize] by (rule conjunct1)
  show "pr_page (paginate S page pageSize) \<le> pr_pages (paginate S page pageSize)"
    using paginate_page_bounds[of S page pageSize] by (rule conjunct2)
  show "pr_pages (paginate S page pageSize) = max 1 \<lceil>real (length S) / real_of_int pageSize\<rceil>"
    using assms by (simp add: paginate_pages max_absorb2)
  show "pr_total (paginate S page pageSize) = int (length S)"
    by (rule paginate_total)
  show "pr_rows (paginate S page pageSize)
        = take (nat pageSize)
            (drop (nat (pr_page (paginate S page pageSize) - 1) * nat pageSize) S)"
    by (rule paginate_rows_clamped[OF assms])
  show "concat (map (\<lambda>p. pr_rows (paginate S p pageSize))
                  [1..pr_pages (paginate S page pageSize)]) = S"
    by (rule paginate_concat[OF assms])
qed

theorem paginate_invariants_witness:
  "(1::int) \<le> 2
   \<and> pr_page (paginate (transactions) 9 2) = 4
   \<and> pr_pages (paginate (transactions) 9 2) = 4
   \<and> pr_total (paginate (transactions) 9 2) = 7
   \<and> pr_rows (paginate (transactions) 9 2) = drop 6 transactions
   \<and> concat (map (\<lambda>p. pr_rows (paginate transactions p 2)) [1..4]) = transactions"
proof -
  have h: "(1::int) \<le> 2" by simp
  have len: "length transactions = 7" by (simp add: transactions_def)
  have pg: "pr_pages (paginate transactions 9 2) = 4"
    by (simp add: paginate_def Let_def len)
  have p: "pr_page (paginate transactions 9 2) = 4"
    by (simp add: paginate_def Let_def len clamp_def)
  from paginate_invariants[OF h, of transactions 9] show ?thesis
    unfolding pg p using len by simp
qed

section \<open>KPIs: the loop computes the three sums\<close>

lemma bit_length_bound: "n < 2 ^ k \<Longrightarrow> bit_length n \<le> k"
proof (induction k arbitrary: n)
  case 0
  then show ?case by (simp add: bit_length.simps)
next
  case (Suc k)
  show ?case
  proof (cases "n = 0")
    case True
    then show ?thesis by (simp add: bit_length.simps)
  next
    case False
    from Suc.prems have "n div 2 < 2 ^ k" by simp
    from Suc.IH[OF this] False show ?thesis by (subst bit_length.simps) simp
  qed
qed

lemma bit_length_pow53: "bit_length 9007199254740992 = 54"
  by (simp add: bit_length.simps)

lemma bit_length_pow53_1: "bit_length 9007199254740993 = 54"
  by (simp add: bit_length.simps)

lemma round_double_pow53:
  "round_double 9007199254740992 = 9007199254740992"
  "round_double (- 9007199254740992) = - 9007199254740992"
  by (simp_all add: round_double_def bit_length_pow53 Let_def)

lemma round_double_small:
  assumes "\<bar>x\<bar> \<le> 2 ^ 53"
  shows "round_double x = x"
proof (cases "\<bar>x\<bar> < 2 ^ 53")
  case True
  then have "nat \<bar>x\<bar> < 2 ^ 53" by simp
  then have "bit_length (nat \<bar>x\<bar>) \<le> 53" by (rule bit_length_bound)
  then show ?thesis by (simp add: round_double_def Let_def)
next
  case False
  with assms have "\<bar>x\<bar> = 9007199254740992" by simp
  then have "x = 9007199254740992 \<or> x = - 9007199254740992" by linarith
  then show ?thesis using round_double_pow53 by auto
qed

lemma number_of_exact_small:
  assumes "\<bar>x\<bar> \<le> 2 ^ 53"
  shows "number_of_exact x = Finite x"
proof -
  have "(2::int) ^ 53 < 2 ^ 1024" by simp
  with assms have "x < 2 ^ 1024" "- (2 ^ 1024) < x" by linarith+
  then show ?thesis by (simp add: number_of_exact_def round_double_small[OF assms])
qed

lemma number_of_exact_rounds: "number_of_exact 9007199254740993 = Finite 9007199254740992"
  by (simp add: number_of_exact_def round_double_def bit_length_pow53_1 Let_def)

lemma dm10:
  fixes k s :: int
  assumes "0 \<le> s" "s \<le> 9"
  shows "(10 * k + s) div 10 = k" "(10 * k + s) mod 10 = s"
  using assms by simp_all

lemma div_10_10: "(y::int) div 10 div 10 = y div 100"
  by (simp add: zdiv_zmult2_eq[symmetric])

lemma div_10_10_10: "(y::int) div 10 div 10 div 10 = y div 1000"
  by (simp add: zdiv_zmult2_eq[symmetric])

lemma decimal_unique:
  fixes p q r s :: int
  assumes "0 \<le> p" "p \<le> 9" "0 \<le> q" "q \<le> 9" "0 \<le> r" "r \<le> 9" "0 \<le> s" "s \<le> 9"
    and "1000 * p + 100 * q + 10 * r + s = y"
  shows "p = y div 1000 \<and> q = y div 100 mod 10 \<and> r = y div 10 mod 10 \<and> s = y mod 10"
proof -
  have "1000 * p + 100 * q + 10 * r + s = 10 * (10 * (10 * p + q) + r) + s" by simp
  with assms(9) have y: "y = 10 * (10 * (10 * p + q) + r) + s" by (rule trans[OF sym])
  have a: "y mod 10 = s" "y div 10 = 10 * (10 * p + q) + r"
    by (simp_all only: y dm10[OF assms(7,8)])
  have b: "y div 10 mod 10 = r" "y div 10 div 10 = 10 * p + q"
    by (simp_all only: a(2) dm10[OF assms(5,6)])
  have c: "y div 10 div 10 mod 10 = q" "y div 10 div 10 div 10 = p"
    by (simp_all only: b(2) dm10[OF assms(3,4)])
  have "y div 1000 = p" by (rule trans[OF div_10_10_10[symmetric] c(2)])
  moreover have "y div 100 mod 10 = q" using c(1) by (simp only: div_10_10)
  ultimately show ?thesis using a(1) b(1) by (intro conjI) (rule sym, assumption)+
qed

lemma nat_div_1000:
  "(n::nat) div 10 div 10 div 10 = n div 1000" "n div 10 div 10 = n div 100"
  "n div 100 div 10 = n div 1000"
  by (simp_all add: div_mult2_eq[symmetric])

lemma digits_4:
  assumes "1000 \<le> n" "n \<le> 9999"
  shows "digits n = [0x30 + of_nat (n div 1000), 0x30 + of_nat (n div 100 mod 10),
                     0x30 + of_nat (n div 10 mod 10), 0x30 + of_nat (n mod 10)]"
proof -
  have a: "\<not> n < 10" "\<not> n div 10 < 10" "\<not> n div 10 div 10 < 10" "n div 10 div 10 div 10 < 10"
    using assms by auto
  have "digits n = digits (n div 10) @ [0x30 + of_nat (n mod 10)]"
    using a(1) by (subst digits.simps) simp
  also have "digits (n div 10) = digits (n div 10 div 10) @ [0x30 + of_nat (n div 10 mod 10)]"
    using a(2) by (subst digits.simps) simp
  also have "digits (n div 10 div 10)
      = digits (n div 10 div 10 div 10) @ [0x30 + of_nat (n div 10 div 10 mod 10)]"
    using a(3) by (subst digits.simps) simp
  also have "digits (n div 10 div 10 div 10) = [0x30 + of_nat (n div 10 div 10 div 10)]"
    using a(4) by (subst digits.simps) simp
  finally show ?thesis by (simp add: nat_div_1000)
qed

lemma digit_value_digit:
  assumes "k < 10"
  shows "digit_value (0x30 + of_nat k) = Some (int k)"
proof -
  have u: "unat (0x30 + of_nat k :: 16 word) = 48 + k"
    using assms by (simp add: unat_word_ariths unat_of_nat)
  have "(0x30::16 word) \<le> 0x30 + of_nat k" "(0x30 + of_nat k :: 16 word) \<le> 0x39"
    using assms by (simp_all add: word_le_nat_alt u)
  then show ?thesis by (simp add: digit_value_def u)
qed

lemma digit_value_Some:
  assumes "digit_value c = Some p"
  shows "0 \<le> p \<and> p \<le> 9 \<and> c = 0x30 + of_nat (nat p)"
proof -
  from assms have r: "0x30 \<le> c" "c \<le> 0x39" and p: "p = int (unat c) - 0x30"
    by (auto simp: digit_value_def split: if_splits)
  from r have n: "48 \<le> unat c" "unat c \<le> 57" by (simp_all add: word_le_nat_alt)
  from n p have b: "0 \<le> p" "p \<le> 9" by linarith+
  have "nat p = unat c - 48" using p by linarith
  then have "(0x30 + of_nat (nat p) :: 16 word) = of_nat (48 + (unat c - 48))" by simp
  also have "48 + (unat c - 48) = unat c" using n by linarith
  finally show ?thesis using b by simp
qed
lemma decimal_sum:
  fixes y :: int
  shows "1000 * (y div 1000) + 100 * (y div 100 mod 10) + 10 * (y div 10 mod 10) + y mod 10 = y"
proof -
  have a: "y = 10 * (y div 10) + y mod 10" by simp
  have "y div 10 = 10 * (y div 10 div 10) + y div 10 mod 10" by simp
  then have b: "y div 10 = 10 * (y div 100) + y div 10 mod 10" by (simp only: div_10_10)
  have "y div 100 div 10 = y div 1000" by (simp add: zdiv_zmult2_eq[symmetric])
  moreover have "y div 100 = 10 * (y div 100 div 10) + y div 100 mod 10" by simp
  ultimately have c: "y div 100 = 10 * (y div 1000) + y div 100 mod 10" by simp
  from a b c show ?thesis by linarith
qed

lemma String_number_year:
  assumes "1000 \<le> y" "y \<le> 9999"
  shows "String_number y =
     [0x30 + of_nat (nat (y div 1000)), 0x30 + of_nat (nat (y div 100 mod 10)),
      0x30 + of_nat (nat (y div 10 mod 10)), 0x30 + of_nat (nat (y mod 10))]"
proof -
  have n: "1000 \<le> nat y" "nat y \<le> 9999" using assms by linarith+
  have d: "nat y div 1000 = nat (y div 1000)" "nat y div 100 mod 10 = nat (y div 100 mod 10)"
    "nat y div 10 mod 10 = nat (y div 10 mod 10)" "nat y mod 10 = nat (y mod 10)"
    using assms by (simp_all add: nat_div_distrib nat_mod_distrib)
  from assms have "String_number y = digits (nat y)" by (simp add: String_number_def)
  then show ?thesis by (simp only: digits_4[OF n] d)
qed

lemma year_digit:
  fixes v :: int
  assumes "0 \<le> v" "v \<le> 9"
  shows "digit_value (0x30 + of_nat (nat v)) = Some v" "digit_value (0x30 + word_of_int v) = Some v"
proof -
  show 1: "digit_value (0x30 + of_nat (nat v)) = Some v"
    using digit_value_digit[of "nat v"] assms by simp
  have "(of_nat (nat v) :: 16 word) = word_of_int v" using assms(1) by simp
  with 1 show "digit_value (0x30 + word_of_int v) = Some v" by simp
qed

lemma year_of_Cons4:
  "year_of (a # b # c # d # rest) =
     (case (digit_value a, digit_value b, digit_value c, digit_value d) of
        (Some p, Some q, Some r, Some s) \<Rightarrow> Some (1000 * p + 100 * q + 10 * r + s)
      | _ \<Rightarrow> None)"
  by (simp add: year_of_def)

lemma year_of_short: "length dt < 4 \<Longrightarrow> year_of dt = None"
  by (auto simp: year_of_def split: list.splits)

lemma long_or_short:
  "(\<exists>a b c d rest. dt = a # b # c # d # rest) \<or> length dt < 4"
proof (cases "length dt < 4")
  case True
  then show ?thesis by simp
next
  case False
  then have "dt = hd dt # hd (tl dt) # hd (tl (tl dt)) # hd (tl (tl (tl dt))) # tl (tl (tl (tl dt)))"
    by (cases dt; cases "tl dt"; cases "tl (tl dt)"; cases "tl (tl (tl dt))") simp_all
  then show ?thesis by blast
qed

lemma year_prefix:
  assumes "1000 \<le> y" "y \<le> 9999"
  shows "startsWith dt (String_number y) \<longleftrightarrow> year_of dt = Some y"
proof -
  from long_or_short[of dt] show ?thesis
  proof
    assume "length dt < 4"
    then have "year_of dt = None" "\<not> prefix (String_number y) dt"
      using prefix_length_le[of "String_number y" dt]
      by (auto simp: year_of_short String_number_year[OF assms])
    then show ?thesis by (simp add: startsWith_def)
  next
    assume "\<exists>a b c d rest. dt = a # b # c # d # rest"
    then obtain a b c d rest where 1: "dt = a # b # c # d # rest" by blast
    have r: "0 \<le> y div 1000" "y div 1000 \<le> 9" "0 \<le> y div 100 mod 10" "y div 100 mod 10 \<le> 9"
      "0 \<le> y div 10 mod 10" "y div 10 mod 10 \<le> 9" "0 \<le> y mod 10" "y mod 10 \<le> 9"
      using assms by simp_all
    show ?thesis
    proof
      assume "startsWith dt (String_number y)"
      then have e: "a = 0x30 + of_nat (nat (y div 1000))" "b = 0x30 + of_nat (nat (y div 100 mod 10))"
        "c = 0x30 + of_nat (nat (y div 10 mod 10))" "d = 0x30 + of_nat (nat (y mod 10))"
        by (simp_all add: startsWith_def String_number_year[OF assms] 1)
      have "year_of dt = Some (1000 * (y div 1000) + 100 * (y div 100 mod 10)
                                + 10 * (y div 10 mod 10) + y mod 10)"
        unfolding 1 e year_of_Cons4
        by (simp add: year_digit[OF r(1,2)] year_digit[OF r(3,4)]
            year_digit[OF r(5,6)] year_digit[OF r(7,8)])
      then show "year_of dt = Some y" by (simp only: decimal_sum)
    next
      assume yo: "year_of dt = Some y"
      then obtain p q r' s where dv: "digit_value a = Some p" "digit_value b = Some q"
          "digit_value c = Some r'" "digit_value d = Some s"
        and sum: "1000 * p + 100 * q + 10 * r' + s = y"
        by (auto simp: 1 year_of_Cons4 split: option.splits)
      note A = digit_value_Some[OF dv(1)] and B = digit_value_Some[OF dv(2)]
        and C = digit_value_Some[OF dv(3)] and D = digit_value_Some[OF dv(4)]
      have u: "p = y div 1000 \<and> q = y div 100 mod 10 \<and> r' = y div 10 mod 10 \<and> s = y mod 10"
        by (rule decimal_unique[OF _ _ _ _ _ _ _ _ sum]) (use A B C D in blast)+
      from A B C D have "a = 0x30 + of_nat (nat p)" "b = 0x30 + of_nat (nat q)"
        "c = 0x30 + of_nat (nat r')" "d = 0x30 + of_nat (nat s)" by blast+
      with u show "startsWith dt (String_number y)"
        by (simp add: startsWith_def String_number_year[OF assms] 1)
    qed
  qed
qed

lemma kpi_loop_folds:
  "kpi_loop yStr rows (i0, o0, b0) =
     (foldl plus_number i0 (map (\<lambda>r. Finite (t_amountCents r))
        (filter (\<lambda>r. 0 \<le> t_amountCents r) (filter (\<lambda>r. startsWith (t_date r) yStr) rows))),
      foldl plus_number o0 (map (\<lambda>r. Finite (t_amountCents r))
        (filter (\<lambda>r. t_amountCents r < 0) (filter (\<lambda>r. startsWith (t_date r) yStr) rows))),
      foldl plus_number b0 (map (\<lambda>r. Finite (t_amountCents r)) rows))"
proof (induction rows arbitrary: i0 o0 b0)
  case Nil
  show ?case by simp
next
  case (Cons r rows)
  show ?case by (simp add: Let_def Cons.IH)
qed

lemma foldl_plus_exact:
  "\<bar>a0\<bar> + sum_list (map (\<lambda>r. \<bar>t_amountCents r\<bar>) rows) \<le> 2 ^ 53 \<Longrightarrow>
   foldl plus_number (Finite a0) (map (\<lambda>r. Finite (t_amountCents r)) rows)
     = Finite (a0 + sum_list (map t_amountCents rows))"
proof (induction rows arbitrary: a0)
  case Nil
  show ?case by simp
next
  case (Cons r rows)
  have nn: "0 \<le> sum_list (map (\<lambda>r. \<bar>t_amountCents r\<bar>) rows)"
    by (rule sum_list_nonneg) auto
  from Cons.prems nn have s: "\<bar>a0 + t_amountCents r\<bar> \<le> 2 ^ 53" by simp
  from Cons.prems have "\<bar>a0 + t_amountCents r\<bar> + sum_list (map (\<lambda>r. \<bar>t_amountCents r\<bar>) rows) \<le> 2 ^ 53"
    by simp
  from Cons.IH[OF this] show ?case
    by (simp add: number_of_exact_small[OF s] add.assoc)
qed

lemma running_total_exact:
  "abs_total rows \<le> 2 ^ 53 \<Longrightarrow> running_total rows = Finite (total rows)"
  using foldl_plus_exact[of 0 rows] by (simp add: abs_total_def running_total_def total_def)

lemma abs_total_filter: "abs_total (filter P rows) \<le> abs_total rows"
  unfolding abs_total_def by (induction rows) auto

lemma abs_total_bounds: "\<bar>total rows\<bar> \<le> abs_total rows"
  unfolding abs_total_def total_def by (induction rows) auto

lemma total_neg_le0: "total (filter (\<lambda>r. t_amountCents r < 0) rows) \<le> 0"
  unfolding total_def by (induction rows) auto

lemma total_split_sign:
  "total (filter (\<lambda>r. 0 \<le> t_amountCents r) rows) + total (filter (\<lambda>r. t_amountCents r < 0) rows)
   = total rows"
  unfolding total_def by (induction rows) auto

lemma computeKPIs_fields:
  "currentBalanceCents (computeKPIs nowYear rows (Some y)) = running_total rows"
  "inflowYTD (computeKPIs nowYear rows (Some y)) =
     running_total (filter (\<lambda>r. 0 \<le> t_amountCents r)
        (filter (\<lambda>r. startsWith (t_date r) (String_number y)) rows))"
  "outflowYTD (computeKPIs nowYear rows (Some y)) =
     running_total (filter (\<lambda>r. t_amountCents r < 0)
        (filter (\<lambda>r. startsWith (t_date r) (String_number y)) rows))"
  by (simp_all add: computeKPIs_def Let_def kpi_loop_folds running_total_def)

lemma dated_in_prefix:
  assumes "1000 \<le> y" "y \<le> 9999"
  shows "filter (\<lambda>r. startsWith (t_date r) (String_number y)) rows = dated_in y rows"
  by (simp add: dated_in_def year_prefix[OF assms])

lemma String_number_2025: "String_number 2025 = js ''2025''"
  by (simp add: String_number_def digits.simps js_def)

text \<open>
  C4, as stated, takes the totals for the sums of the amounts. The totals are doubles
  and every addition rounds to 53 significant bits: after an allocation of \<open>2^53\<close>
  cents, an allocation of one cent leaves the balance and the inflow where they were.
\<close>

theorem computeKPIs_rounding_counterexample:
  "currentBalanceCents (computeKPIs 2026 large_rows (Some 2025)) = Finite 9007199254740992
   \<and> inflowYTD (computeKPIs 2026 large_rows (Some 2025)) = Finite 9007199254740992
   \<and> total large_rows = 9007199254740993
   \<and> total (filter (\<lambda>r. 0 \<le> t_amountCents r) (dated_in 2025 large_rows)) = 9007199254740993"
proof -
  have a: "number_of_exact 9007199254740992 = Finite 9007199254740992"
    using number_of_exact_small[of 9007199254740992] by simp
  note b = number_of_exact_rounds
  have k: "kpi_loop (js ''2025'') large_rows (Finite 0, Finite 0, Finite 0)
      = (Finite 9007199254740992, Finite 0, Finite 9007199254740992)"
    by (simp add: large_rows_def txn_def startsWith_def js_def Let_def a b)
  have d: "dated_in 2025 large_rows = large_rows"
    by (simp add: dated_in_def year_of_def large_rows_def txn_def js_def digit_value_def)
  show ?thesis
    unfolding d by (simp add: computeKPIs_def String_number_2025 k)
      (simp add: total_def large_rows_def txn_def)
qed

lemma far_rows_999:
  "inflowYTD (computeKPIs nowYear far_rows (Some 999)) = Finite 5"
  "dated_in 9990 far_rows = far_rows"
proof -
  have s: "String_number 999 = js ''999''"
    by (simp add: String_number_def digits.simps js_def)
  have n: "number_of_exact 5 = Finite 5" using number_of_exact_small[of 5] by simp
  show "inflowYTD (computeKPIs nowYear far_rows (Some 999)) = Finite 5"
    by (simp add: computeKPIs_def s far_rows_def txn_def startsWith_def js_def Let_def n)
  show "dated_in 9990 far_rows = far_rows"
    by (simp add: dated_in_def year_of_def far_rows_def txn_def js_def digit_value_def)
qed

text \<open>
  C4, amended. For every transaction list and every target year \<open>y\<close> of four
  digits, the totals of \<open>computeKPIs\<close> are running totals in double arithmetic, in
  list order: the balance over all amounts whatever the dates, the inflow over the
  non-negative and the outflow over the negative amounts of the transactions whose
  date string starts with the four digits of \<open>y\<close>. When the absolute values of the
  amounts add up to at most \<open>2^53\<close> cents no addition rounds: the balance is the sum
  of all signed amounts; and, with that bound on the transactions dated in \<open>y\<close>, the
  inflow is the sum of their non-negative amounts, the outflow the sum of their
  negative amounts (so at most 0), and inflow plus outflow is their net signed sum.
  The test on the date is a prefix test on the decimal string of \<open>y\<close>: for the target
  999, of three digits, a transaction of the year 9990 counts.
\<close>

theorem computeKPIs_sums:
  "currentBalanceCents (computeKPIs nowYear rows (Some y)) = running_total rows
   \<and> (1000 \<le> y \<and> y \<le> 9999 \<longrightarrow>
        inflowYTD (computeKPIs nowYear rows (Some y))
          = running_total (filter (\<lambda>r. 0 \<le> t_amountCents r) (dated_in y rows))
      \<and> outflowYTD (computeKPIs nowYear rows (Some y))
          = running_total (filter (\<lambda>r. t_amountCents r < 0) (dated_in y rows)))
   \<and> (abs_total rows \<le> 2 ^ 53 \<longrightarrow>
        currentBalanceCents (computeKPIs nowYear rows (Some y)) = Finite (total rows))
   \<and> (1000 \<le> y \<and> y \<le> 9999 \<and> abs_total (dated_in y rows) \<le> 2 ^ 53 \<longrightarrow>
        inflowYTD (computeKPIs nowYear rows (Some y))
          = Finite (total (filter (\<lambda>r. 0 \<le> t_amountCents r) (dated_in y rows)))
      \<and> outflowYTD (computeKPIs nowYear rows (Some y))
          = Finite (total (filter (\<lambda>r. t_amountCents r < 0) (dated_in y rows)))
      \<and> total (filter (\<lambda>r. t_amountCents r < 0) (dated_in y rows)) \<le> 0
      \<and> plus_number (inflowYTD (computeKPIs nowYear rows (Some y)))
           (outflowYTD (computeKPIs nowYear rows (Some y)))
          = Finite (total (dated_in y rows)))
   \<and> inflowYTD (computeKPIs nowYear far_rows (Some 999)) = Finite 5
   \<and> dated_in 9990 far_rows = far_rows"
proof (intro conjI impI)
  show "inflowYTD (computeKPIs nowYear far_rows (Some 999)) = Finite 5"
    by (rule far_rows_999(1))
  show "dated_in 9990 far_rows = far_rows"
    by (rule far_rows_999(2))
next
  let ?k = "computeKPIs nowYear rows (Some y)"
  let ?pos = "filter (\<lambda>r. 0 \<le> t_amountCents r) (dated_in y rows)"
  let ?neg = "filter (\<lambda>r. t_amountCents r < 0) (dated_in y rows)"
  show b: "currentBalanceCents ?k = running_total rows"
    by (rule computeKPIs_fields(1))
  {
    assume "abs_total rows \<le> 2 ^ 53"
    then show "currentBalanceCents ?k = Finite (total rows)"
      by (simp only: b running_total_exact)
  }
  {
    assume "1000 \<le> y \<and> y \<le> 9999"
    then have y: "1000 \<le> y" "y \<le> 9999" by simp_all
    show "inflowYTD ?k = running_total ?pos"
      by (simp only: computeKPIs_fields(2) dated_in_prefix[OF y])
    show "outflowYTD ?k = running_total ?neg"
      by (simp only: computeKPIs_fields(3) dated_in_prefix[OF y])
  }
  {
    assume h: "1000 \<le> y \<and> y \<le> 9999 \<and> abs_total (dated_in y rows) \<le> 2 ^ 53"
    then have y: "1000 \<le> y" "y \<le> 9999" and s: "abs_total (dated_in y rows) \<le> 2 ^ 53"
      by simp_all
    have p: "abs_total ?pos \<le> 2 ^ 53" and n: "abs_total ?neg \<le> 2 ^ 53"
      using s abs_total_filter[of _ "dated_in y rows"] by (meson order_trans)+
    show i: "inflowYTD ?k = Finite (total ?pos)"
      by (simp only: computeKPIs_fields(2) dated_in_prefix[OF y] running_total_exact[OF p])
    show o: "outflowYTD ?k = Finite (total ?neg)"
      by (simp only: computeKPIs_fields(3) dated_in_prefix[OF y] running_total_exact[OF n])
    show "total ?neg \<le> 0" by (rule total_neg_le0)
    have "\<bar>total (dated_in y rows)\<bar> \<le> 2 ^ 53"
      using abs_total_bounds[of "dated_in y rows"] s by linarith
    then have "number_of_exact (total ?pos + total ?neg) = Finite (total (dated_in y rows))"
      by (simp only: total_split_sign number_of_exact_small)
    then show "plus_number (inflowYTD ?k) (outflowYTD ?k) = Finite (total (dated_in y rows))"
      by (simp only: i o plus_number.simps)
  }
qed

theorem computeKPIs_sums_witness:
  "(1000 \<le> (2025::int) \<and> (2025::int) \<le> 9999) \<and> abs_total ledger_rows \<le> 2 ^ 53
   \<and> length ledger_rows = 10 \<and> length (dated_in 2025 ledger_rows) = 8
   \<and> currentBalanceCents (computeKPIs 2026 ledger_rows (Some 2025)) = Finite 783340
   \<and> inflowYTD (computeKPIs 2026 ledger_rows (Some 2025)) = Finite 1012040
   \<and> outflowYTD (computeKPIs 2026 ledger_rows (Some 2025)) = Finite (- 233000)
   \<and> plus_number (inflowYTD (computeKPIs 2026 ledger_rows (Some 2025)))
        (outflowYTD (computeKPIs 2026 ledger_rows (Some 2025))) = Finite 779040"
proof -
  have d: "dated_in 2025 ledger_rows
      = transactions @ [txn ''t-far-1'' ''20250-01-01'' Revenue 40 None None None None None]"
    by (simp add: dated_in_def year_of_def ledger_rows_def transactions_def txn_def js_def
        digit_value_def)
  have a: "abs_total ledger_rows \<le> 2 ^ 53"
    by (simp add: abs_total_def ledger_rows_def transactions_def txn_def)
  have ad: "abs_total (dated_in 2025 ledger_rows) \<le> 2 ^ 53"
    unfolding d by (simp add: abs_total_def transactions_def txn_def)
  have t: "total ledger_rows = 783340"
    by (simp add: total_def ledger_rows_def transactions_def txn_def)
  have tp: "total (filter (\<lambda>r. 0 \<le> t_amountCents r) (dated_in 2025 ledger_rows)) = 1012040"
    unfolding d by (simp add: total_def transactions_def txn_def)
  have tn: "total (filter (\<lambda>r. t_amountCents r < 0) (dated_in 2025 ledger_rows)) = - 233000"
    unfolding d by (simp add: total_def transactions_def txn_def)
  have td: "total (dated_in 2025 ledger_rows) = 779040"
    unfolding d by (simp add: total_def transactions_def txn_def)
  have l: "length ledger_rows = 10" "length (dated_in 2025 ledger_rows) = 8"
    unfolding d by (simp_all add: ledger_rows_def transactions_def)
  have h: "(1000 \<le> (2025::int) \<and> (2025::int) \<le> 9999) \<and> abs_total ledger_rows \<le> 2 ^ 53
      \<and> abs_total (dated_in 2025 ledger_rows) \<le> 2 ^ 53"
    using a ad by simp
  from computeKPIs_sums[of 2026 ledger_rows 2025] h
  have "currentBalanceCents (computeKPIs 2026 ledger_rows (Some 2025)) = Finite (total ledger_rows)
     \<and> inflowYTD (computeKPIs 2026 ledger_rows (Some 2025))
          = Finite (total (filter (\<lambda>r. 0 \<le> t_amountCents r) (dated_in 2025 ledger_rows)))
     \<and> outflowYTD (computeKPIs 2026 ledger_rows (Some 2025))
          = Finite (total (filter (\<lambda>r. t_amountCents r < 0) (dated_in 2025 ledger_rows)))
     \<and> plus_number (inflowYTD (computeKPIs 2026 ledger_rows (Some 2025)))
           (outflowYTD (computeKPIs 2026 ledger_rows (Some 2025)))
          = Finite (total (dated_in 2025 ledger_rows))"
    by blast
  with h l show ?thesis unfolding t tp tn td by blast
qed

section \<open>Sorting: a sorted permutation in a fresh array\<close>

lemma mset_insert_by: "mset (insert_by cmp x ys) = add_mset x (mset ys)"
  by (induction ys) simp_all

lemma mset_array_sort: "mset (array_sort cmp xs) = mset xs"
  unfolding array_sort_def by (induction xs) (simp_all add: mset_insert_by)

lemma set_insert_by: "set (insert_by cmp x ys) = insert x (set ys)"
  using mset_insert_by[of cmp x ys] by (metis set_mset_add_mset_insert set_mset_mset)

lemma sorted_wrt_insert_by:
  assumes tot: "\<And>x y. cmp x y \<le> 0 \<or> cmp y x \<le> 0"
      and trans: "\<And>x y z. cmp x y \<le> 0 \<Longrightarrow> cmp y z \<le> 0 \<Longrightarrow> cmp x z \<le> 0"
      and srt: "sorted_wrt (\<lambda>x y. cmp x y \<le> 0) ys"
  shows "sorted_wrt (\<lambda>x y. cmp x y \<le> 0) (insert_by cmp x ys)"
  using srt
proof (induction ys)
  case Nil
  show ?case by simp
next
  case (Cons y ys)
  show ?case
  proof (cases "cmp x y \<le> 0")
    case True
    have "cmp x z \<le> 0" if "z \<in> set ys" for z
      using Cons.prems that trans[OF True, of z] by simp
    with True Cons.prems show ?thesis by simp
  next
    case False
    then have yx: "cmp y x \<le> 0" using tot[of x y] by simp
    have "sorted_wrt (\<lambda>x y. cmp x y \<le> 0) (insert_by cmp x ys)"
      using Cons by simp
    with False yx Cons.prems show ?thesis by (simp add: set_insert_by)
  qed
qed

lemma sorted_wrt_array_sort:
  assumes tot: "\<And>x y. cmp x y \<le> 0 \<or> cmp y x \<le> 0"
      and trans: "\<And>x y z. cmp x y \<le> 0 \<Longrightarrow> cmp y z \<le> 0 \<Longrightarrow> cmp x z \<le> 0"
  shows "sorted_wrt (\<lambda>x y. cmp x y \<le> 0) (array_sort cmp xs)"
proof (induction xs)
  case Nil
  show ?case by (simp add: array_sort_def)
next
  case (Cons x xs)
  have "array_sort cmp (x # xs) = insert_by cmp x (array_sort cmp xs)"
    by (simp add: array_sort_def)
  with sorted_wrt_insert_by[of cmp "array_sort cmp xs" x, OF tot trans Cons] show ?case
    by simp
qed

lemma amount_asc_sorted: "sorted (map t_amountCents (array_sort cmp_amount_asc xs))"
proof -
  have "sorted_wrt (\<lambda>x y. cmp_amount_asc x y \<le> 0) (array_sort cmp_amount_asc xs)"
    by (rule sorted_wrt_array_sort) (auto simp: cmp_amount_asc_def)
  then show ?thesis by (simp add: sorted_map cmp_amount_asc_def)
qed

lemma amount_desc_sorted: "sorted (rev (map t_amountCents (array_sort cmp_amount_desc xs)))"
proof -
  have "sorted_wrt (\<lambda>x y. cmp_amount_desc x y \<le> 0) (array_sort cmp_amount_desc xs)"
    by (rule sorted_wrt_array_sort) (auto simp: cmp_amount_desc_def)
  then show ?thesis by (simp add: sorted_wrt_rev sorted_wrt_map cmp_amount_desc_def)
qed

lemma date_asc_sorted: "sorted (map t_date (array_sort cmp_date_asc xs))"
proof -
  have "sorted_wrt (\<lambda>x y. cmp_date_asc x y \<le> 0) (array_sort cmp_date_asc xs)"
    by (rule sorted_wrt_array_sort) (auto simp: cmp_date_asc_def split: if_splits)
  moreover have "(cmp_date_asc x y \<le> 0) = (t_date x \<le> t_date y)" for x y
    by (auto simp: cmp_date_asc_def)
  ultimately show ?thesis by (simp add: sorted_map)
qed

lemma date_desc_sorted: "sorted (rev (map t_date (array_sort cmp_date_desc xs)))"
proof -
  have "sorted_wrt (\<lambda>x y. cmp_date_desc x y \<le> 0) (array_sort cmp_date_desc xs)"
    by (rule sorted_wrt_array_sort) (auto simp: cmp_date_desc_def split: if_splits)
  moreover have "(cmp_date_desc x y \<le> 0) = (t_date y \<le> t_date x)" for x y
    by (auto simp: cmp_date_desc_def)
  ultimately show ?thesis by (simp add: sorted_wrt_rev sorted_wrt_map)
qed

lemma amount_desc_reverse:
  "map t_amountCents (array_sort cmp_amount_desc xs)
   = rev (map t_amountCents (array_sort cmp_amount_asc xs))"
proof -
  let ?A = "map t_amountCents (array_sort cmp_amount_asc xs)"
  let ?D = "map t_amountCents (array_sort cmp_amount_desc xs)"
  have "mset ?A = mset (map t_amountCents xs)"
    by (simp only: mset_map mset_array_sort)
  then have a: "sort (map t_amountCents xs) = ?A"
    using amount_asc_sorted by (rule properties_for_sort)
  have "mset (rev ?D) = mset (map t_amountCents xs)"
    by (simp only: mset_rev mset_map mset_array_sort)
  then have "sort (map t_amountCents xs) = rev ?D"
    using amount_desc_sorted by (rule properties_for_sort)
  with a have "rev ?D = ?A" by simp
  then show ?thesis by (metis rev_rev_ident)
qed

lemma sortTransactions_result:
  "sortTransactions h rows key =
     (\<lparr> cells = (cells h)(next_ref h := array_sort (comparator key) (cells h rows)),
        next_ref = Suc (next_ref h) \<rparr>, next_ref h)"
  by (simp add: sortTransactions_def array_copy_def array_sort_in_place_def Let_def)

text \<open>
  C9. For a list held in an allocated array, \<open>sortTransactions\<close> with \<open>amount_asc\<close>
  returns the rows with each amount at most the next; with \<open>amount_desc\<close> the amounts
  are non-increasing and are the reverse of the \<open>amount_asc\<close> amounts; with
  \<open>date_asc\<close> and \<open>date_desc\<close> the date strings are in non-decreasing and
  non-increasing lexicographic order. In every case the result is a newly allocated
  array, and the input array and every other array of the store are left as they were.
\<close>

theorem sortTransactions_ordered:
  assumes "rows < next_ref h"
  shows "(\<forall>key. snd (sortTransactions h rows key) \<noteq> rows
            \<and> next_ref h \<le> snd (sortTransactions h rows key)
            \<and> (\<forall>b < next_ref h. cells (fst (sortTransactions h rows key)) b = cells h b))
       \<and> sorted (map t_amountCents
            (cells (fst (sortTransactions h rows amount_asc)) (snd (sortTransactions h rows amount_asc))))
       \<and> sorted (rev (map t_amountCents
            (cells (fst (sortTransactions h rows amount_desc)) (snd (sortTransactions h rows amount_desc)))))
       \<and> map t_amountCents
            (cells (fst (sortTransactions h rows amount_desc)) (snd (sortTransactions h rows amount_desc)))
          = rev (map t_amountCents
            (cells (fst (sortTransactions h rows amount_asc)) (snd (sortTransactions h rows amount_asc))))
       \<and> sorted (map t_date
            (cells (fst (sortTransactions h rows date_asc)) (snd (sortTransactions h rows date_asc))))
       \<and> sorted (rev (map t_date
            (cells (fst (sortTransactions h rows date_desc)) (snd (sortTransactions h rows date_desc)))))"
proof (intro conjI allI impI)
  fix key
  show "snd (sortTransactions h rows key) \<noteq> rows"
    using assms by (simp add: sortTransactions_result)
  show "next_ref h \<le> snd (sortTransactions h rows key)"
    by (simp add: sortTransactions_result)
  fix b assume "b < next_ref h"
  then show "cells (fst (sortTransactions h rows key)) b = cells h b"
    by (simp add: sortTransactions_result)
next
  show "sorted (map t_amountCents
            (cells (fst (sortTransactions h rows amount_asc)) (snd (sortTransactions h rows amount_asc))))"
    by (simp add: sortTransactions_result amount_asc_sorted)
  show "sorted (rev (map t_amountCents
            (cells (fst (sortTransactions h rows amount_desc)) (snd (sortTransactions h rows amount_desc)))))"
    using amount_desc_sorted[of "cells h rows"] by (simp add: sortTransactions_result rev_map)
  show "map t_amountCents
            (cells (fst (sortTransactions h rows amount_desc)) (snd (sortTransactions h rows amount_desc)))
          = rev (map t_amountCents
            (cells (fst (sortTransactions h rows amount_asc)) (snd (sortTransactions h rows amount_asc))))"
    using amount_desc_reverse[of "cells h rows"] by (simp add: sortTransactions_result rev_map)
  show "sorted (map t_date
            (cells (fst (sortTransactions h rows date_asc)) (snd (sortTransactions h rows date_asc))))"
    by (simp add: sortTransactions_result date_asc_sorted)
  show "sorted (rev (map t_date
            (cells (fst (sortTransactions h rows date_desc)) (snd (sortTransactions h rows date_desc)))))"
    using date_desc_sorted[of "cells h rows"] by (simp add: sortTransactions_result rev_map)
qed

theorem sortTransactions_ordered_witness:
  "(0::nat) < next_ref \<lparr> cells = (\<lambda>_. [])(0 := transactions), next_ref = 1 \<rparr>
   \<and> sortTransactions \<lparr> cells = (\<lambda>_. [])(0 := transactions), next_ref = 1 \<rparr> 0 amount_asc
       = (\<lparr> cells = ((\<lambda>_. [])(0 := transactions))
                (1 := map (\<lambda>i. transactions ! i) [2, 4, 3, 6, 5, 1, 0]), next_ref = 2 \<rparr>, 1)
   \<and> sorted (map t_amountCents (map (\<lambda>i. transactions ! i) [2, 4, 3, 6, 5, 1, 0]))"
proof -
  let ?h = "\<lparr> cells = (\<lambda>_. [])(0 := transactions), next_ref = 1 \<rparr>"
  have lt: "(0::nat) < next_ref ?h" by simp
  have r: "array_sort cmp_amount_asc transactions
           = map (\<lambda>i. transactions ! i) [2, 4, 3, 6, 5, 1, 0]"
    by (simp add: array_sort_def transactions_def txn_def cmp_amount_asc_def)
  have s: "sortTransactions ?h 0 amount_asc
       = (\<lparr> cells = ((\<lambda>_. [])(0 := transactions))
                (1 := map (\<lambda>i. transactions ! i) [2, 4, 3, 6, 5, 1, 0]), next_ref = 2 \<rparr>, 1)"
    by (simp add: sortTransactions_result r)
  from sortTransactions_ordered[OF lt] have
    "sorted (map t_amountCents
       (cells (fst (sortTransactions ?h 0 amount_asc)) (snd (sortTransactions ?h 0 amount_asc))))"
    by blast
  then have "sorted (map t_amountCents (map (\<lambda>i. transactions ! i) [2, 4, 3, 6, 5, 1, 0]))"
    by (simp only: s fst_conv snd_conv store.simps fun_upd_same)
  with lt s show ?thesis by blast
qed

text \<open>
  C10. For every transaction list and every sort key, the array that
  \<open>sortTransactions\<close> returns is a permutation of the input: the same multiset of
  rows and the same length.
\<close>

theorem sortTransactions_permutation:
  "mset (cells (fst (sortTransactions h rows key)) (snd (sortTransactions h rows key)))
     = mset (cells h rows)
   \<and> length (cells (fst (sortTransactions h rows key)) (snd (sortTransactions h rows key)))
     = length (cells h rows)"
proof -
  have m: "mset (cells (fst (sortTransactions h rows key)) (snd (sortTransactions h rows key)))
     = mset (cells h rows)"
    by (simp add: sortTransactions_result mset_array_sort)
  from m show ?thesis by (metis size_mset)
qed

theorem sortTransactions_permutation_witness:
  "mset (cells (fst (sortTransactions \<lparr> cells = (\<lambda>_. [])(0 := transactions), next_ref = 1 \<rparr> 0 date_desc))
          (snd (sortTransactions \<lparr> cells = (\<lambda>_. [])(0 := transactions), next_ref = 1 \<rparr> 0 date_desc)))
     = mset transactions
   \<and> length (cells (fst (sortTransactions \<lparr> cells = (\<lambda>_. [])(0 := transactions), next_ref = 1 \<rparr> 0 date_desc))
          (snd (sortTransactions \<lparr> cells = (\<lambda>_. [])(0 := transactions), next_ref = 1 \<rparr> 0 date_desc)))
     = 7"
  using sortTransactions_permutation
          [of "\<lparr> cells = (\<lambda>_. [])(0 := transactions), next_ref = 1 \<rparr>" 0 date_desc]
  by (simp add: transactions_def)

section \<open>Filtering: exactly the rows that satisfy every supplied predicate\<close>

lemma filterTransactions_as_filter:
  "filterTransactions lc S f =
     filter (\<lambda>r. (\<forall>t. f_type f = Some (Only t) \<longrightarrow> t_type r = t)
                \<and> (\<forall>d. f_from f = Some d \<longrightarrow> d \<noteq> [] \<longrightarrow> d \<le> t_date r)
                \<and> (\<forall>d. f_to f = Some d \<longrightarrow> d \<noteq> [] \<longrightarrow> t_date r \<le> d)
                \<and> (\<forall>e. f_eventId f = Some e \<longrightarrow> e \<noteq> [] \<longrightarrow> t_eventId r = Some e)
                \<and> (\<forall>b. f_billId f = Some b \<longrightarrow> b \<noteq> [] \<longrightarrow> t_billId r = Some b)
                \<and> (lc (trim (orEmpty (f_search f))) \<noteq> [] \<longrightarrow>
                     sublist (lc (trim (orEmpty (f_search f))))
                       (lc (orEmpty (t_vendor r) @ js '' '' @ orEmpty (t_memo r))))) S"
proof -
  have ty: "(case f_type f of None \<Rightarrow> False | Some ft \<Rightarrow> ft \<noteq> All \<and> Only (t_type r) \<noteq> ft)
            = (\<not> (\<forall>t. f_type f = Some (Only t) \<longrightarrow> t_type r = t))" for r
  proof (cases "f_type f")
    case None
    then show ?thesis by simp
  next
    case (Some ft)
    then show ?thesis by (cases ft) auto
  qed
  have fr: "(case f_from f of None \<Rightarrow> False | Some d \<Rightarrow> d \<noteq> [] \<and> t_date r < d)
            = (\<not> (\<forall>d. f_from f = Some d \<longrightarrow> d \<noteq> [] \<longrightarrow> d \<le> t_date r))" for r
    by (cases "f_from f") (auto simp: not_le)
  have to: "(case f_to f of None \<Rightarrow> False | Some d \<Rightarrow> d \<noteq> [] \<and> t_date r > d)
            = (\<not> (\<forall>d. f_to f = Some d \<longrightarrow> d \<noteq> [] \<longrightarrow> t_date r \<le> d))" for r
    by (cases "f_to f") (auto simp: not_le)
  have ev: "(case f_eventId f of None \<Rightarrow> False | Some e \<Rightarrow> e \<noteq> [] \<and> t_eventId r \<noteq> Some e)
            = (\<not> (\<forall>e. f_eventId f = Some e \<longrightarrow> e \<noteq> [] \<longrightarrow> t_eventId r = Some e))" for r
    by (cases "f_eventId f") auto
  have bi: "(case f_billId f of None \<Rightarrow> False | Some b \<Rightarrow> b \<noteq> [] \<and> t_billId r \<noteq> Some b)
            = (\<not> (\<forall>b. f_billId f = Some b \<longrightarrow> b \<noteq> [] \<longrightarrow> t_billId r = Some b))" for r
    by (cases "f_billId f") auto
  show ?thesis
    unfolding filterTransactions_def Let_def ty fr to ev bi str_includes_def
    by (rule filter_cong) auto
qed

text \<open>
  C1. For every transaction list \<open>S\<close> and every filter \<open>f\<close>, \<open>filterTransactions\<close>
  returns exactly the rows of \<open>S\<close>, in their order, that satisfy all the supplied
  predicates together: the type when one other than "all" is given, the inclusive
  from and to date bounds, the exact event and bill ids, and the search. A string
  option counts as supplied when it is present and not empty. With only
  \<open>type: "all"\<close> the list comes back unchanged; \<open>toLowerCase\<close> maps the empty string
  to the empty string.
\<close>

theorem filterTransactions_exact:
  assumes "lc [] = []"
  shows "filterTransactions lc S f =
     filter (\<lambda>r. (\<forall>t. f_type f = Some (Only t) \<longrightarrow> t_type r = t)
                \<and> (\<forall>d. f_from f = Some d \<longrightarrow> d \<noteq> [] \<longrightarrow> d \<le> t_date r)
                \<and> (\<forall>d. f_to f = Some d \<longrightarrow> d \<noteq> [] \<longrightarrow> t_date r \<le> d)
                \<and> (\<forall>e. f_eventId f = Some e \<longrightarrow> e \<noteq> [] \<longrightarrow> t_eventId r = Some e)
                \<and> (\<forall>b. f_billId f = Some b \<longrightarrow> b \<noteq> [] \<longrightarrow> t_billId r = Some b)
                \<and> (lc (trim (orEmpty (f_search f))) \<noteq> [] \<longrightarrow>
                     sublist (lc (trim (orEmpty (f_search f))))
                       (lc (orEmpty (t_vendor r) @ js '' '' @ orEmpty (t_memo r))))) S
   \<and> subseq (filterTransactions lc S f) S
   \<and> filterTransactions lc S (noFilter\<lparr> f_type := Some All \<rparr>) = S"
proof (intro conjI)
  show "filterTransactions lc S f =
     filter (\<lambda>r. (\<forall>t. f_type f = Some (Only t) \<longrightarrow> t_type r = t)
                \<and> (\<forall>d. f_from f = Some d \<longrightarrow> d \<noteq> [] \<longrightarrow> d \<le> t_date r)
                \<and> (\<forall>d. f_to f = Some d \<longrightarrow> d \<noteq> [] \<longrightarrow> t_date r \<le> d)
                \<and> (\<forall>e. f_eventId f = Some e \<longrightarrow> e \<noteq> [] \<longrightarrow> t_eventId r = Some e)
                \<and> (\<forall>b. f_billId f = Some b \<longrightarrow> b \<noteq> [] \<longrightarrow> t_billId r = Some b)
                \<and> (lc (trim (orEmpty (f_search f))) \<noteq> [] \<longrightarrow>
                     sublist (lc (trim (orEmpty (f_search f))))
                       (lc (orEmpty (t_vendor r) @ js '' '' @ orEmpty (t_memo r))))) S"
    by (rule filterTransactions_as_filter)
  show "subseq (filterTransactions lc S f) S"
    by (simp only: filterTransactions_as_filter subseq_filter_left)
  show "filterTransactions lc S (noFilter\<lparr> f_type := Some All \<rparr>) = S"
    using assms
    by (simp add: filterTransactions_as_filter noFilter_def orEmpty_def trim_def)
qed

theorem filterTransactions_exact_witness:
  "asciiLower [] = []
   \<and> map t_id (filterTransactions asciiLower transactions
        \<lparr> f_type = Some (Only Expense), f_from = Some (js ''2025-11-01''),
          f_to = Some (js ''2025-11-30''), f_search = Some (js ''boba''),
          f_eventId = None, f_billId = None \<rparr>) = [js ''t-exp-1'']
   \<and> filterTransactions asciiLower transactions (noFilter\<lparr> f_type := Some All \<rparr>) = transactions"
proof -
  have h: "asciiLower [] = []" by (simp add: asciiLower_def)
  let ?f = "\<lparr> f_type = Some (Only Expense), f_from = Some (js ''2025-11-01''),
          f_to = Some (js ''2025-11-30''), f_search = Some (js ''boba''),
          f_eventId = None, f_billId = None \<rparr>"
  have t: "asciiLower (trim (orEmpty (f_search ?f))) = js ''boba''"
    by (simp add: asciiLower_def trim_def orEmpty_def js_def isWhite_def)
  from filterTransactions_exact[of asciiLower transactions ?f, OF h]
  have "filterTransactions asciiLower transactions ?f =
     filter (\<lambda>r. (\<forall>t. f_type ?f = Some (Only t) \<longrightarrow> t_type r = t)
                \<and> (\<forall>d. f_from ?f = Some d \<longrightarrow> d \<noteq> [] \<longrightarrow> d \<le> t_date r)
                \<and> (\<forall>d. f_to ?f = Some d \<longrightarrow> d \<noteq> [] \<longrightarrow> t_date r \<le> d)
                \<and> (\<forall>e. f_eventId ?f = Some e \<longrightarrow> e \<noteq> [] \<longrightarrow> t_eventId r = Some e)
                \<and> (\<forall>b. f_billId ?f = Some b \<longrightarrow> b \<noteq> [] \<longrightarrow> t_billId r = Some b)
                \<and> (asciiLower (trim (orEmpty (f_search ?f))) \<noteq> [] \<longrightarrow>
                     sublist (asciiLower (trim (orEmpty (f_search ?f))))
                       (asciiLower (orEmpty (t_vendor r) @ js '' '' @ orEmpty (t_memo r))))) transactions"
    by (rule conjunct1)
  then have a: "map t_id (filterTransactions asciiLower transactions ?f) = [js ''t-exp-1'']"
    unfolding t
    by (simp add: transactions_def txn_def js_def asciiLower_def orEmpty_def sublist_code)
  from filterTransactions_exact[of asciiLower transactions ?f, OF h]
  have b: "filterTransactions asciiLower transactions (noFilter\<lparr> f_type := Some All \<rparr>) = transactions"
    by blast
  from h a b show ?thesis by blast
qed

section \<open>The search predicate\<close>

text \<open>
  C6, as stated, takes the haystack to be the vendor and the memo run together and
  the needle to be the lowercased search string. The code puts one space between
  vendor and memo: the seed expense with vendor "Boba Vendor LLC" and memo
  "Boba Recharge" passes the search "LLC Boba", which is no substring of the two
  fields run together.
\<close>

theorem search_concatenation_counterexample:
  "\<not> ((transactions ! 2) \<in> set (filterTransactions asciiLower transactions
            (noFilter\<lparr> f_search := Some (js ''LLC Boba'') \<rparr>))
        \<longleftrightarrow> sublist (asciiLower (js ''LLC Boba''))
              (asciiLower (orEmpty (t_vendor (transactions ! 2)) @ orEmpty (t_memo (transactions ! 2)))))"
proof -
  have n: "asciiLower (trim (orEmpty (f_search (noFilter\<lparr> f_search := Some (js ''LLC Boba'') \<rparr>))))
           = js ''llc boba''"
    by (simp add: asciiLower_def trim_def orEmpty_def js_def isWhite_def noFilter_def)
  have a: "filterTransactions asciiLower transactions (noFilter\<lparr> f_search := Some (js ''LLC Boba'') \<rparr>)
           = [transactions ! 2]"
    unfolding filterTransactions_as_filter n
    by (simp add: transactions_def txn_def js_def asciiLower_def orEmpty_def sublist_code
        noFilter_def)
  have b: "\<not> sublist (asciiLower (js ''LLC Boba''))
              (asciiLower (orEmpty (t_vendor (transactions ! 2)) @ orEmpty (t_memo (transactions ! 2))))"
    by (simp add: transactions_def txn_def js_def asciiLower_def orEmpty_def sublist_code)
  show ?thesis unfolding a using b by simp
qed

text \<open>
  C6, amended. \<open>toLowerCase\<close> maps exactly the empty string to the empty string.
  When the search string is not empty after trimming, a row passes the search
  predicate of \<open>filterTransactions\<close> if and only if the trimmed, lowercased search
  string is a substring of the lowercased string made of the vendor, one space and
  the memo, an absent field counting as the empty string: the result is the result
  without the search, filtered by that test. A search that is absent or empty after
  trimming changes nothing.
\<close>

theorem filterTransactions_search:
  assumes "\<And>s. (lc s = []) = (s = [])"
  shows "(trim (orEmpty (f_search f)) \<noteq> [] \<longrightarrow>
           filterTransactions lc rows f =
             filter (\<lambda>r. sublist (lc (trim (orEmpty (f_search f))))
                            (lc (orEmpty (t_vendor r) @ js '' '' @ orEmpty (t_memo r))))
               (filterTransactions lc rows (f\<lparr> f_search := None \<rparr>)))
       \<and> (trim (orEmpty (f_search f)) = [] \<longrightarrow>
           filterTransactions lc rows f = filterTransactions lc rows (f\<lparr> f_search := None \<rparr>))"
proof -
  have none: "lc (trim (orEmpty None)) = []"
    using assms by (simp add: orEmpty_def trim_def)
  have ne: "(lc (trim (orEmpty (f_search f))) \<noteq> []) = (trim (orEmpty (f_search f)) \<noteq> [])"
    using assms by simp
  have e: "lc [] = []" using assms by simp
  show ?thesis
    unfolding filterTransactions_as_filter
    by (auto simp: none ne e intro!: filter_cong)
qed

theorem filterTransactions_search_witness:
  "(\<forall>s. (asciiLower s = []) = (s = []))
   \<and> trim (js ''  LLC Boba '') = js ''LLC Boba''
   \<and> map t_id (filterTransactions asciiLower transactions
        (noFilter\<lparr> f_search := Some (js ''  LLC Boba '') \<rparr>)) = [js ''t-exp-1'']"
proof -
  have h: "(asciiLower s = []) = (s = [])" for s by (simp add: asciiLower_def)
  let ?f = "noFilter\<lparr> f_search := Some (js ''  LLC Boba '') \<rparr>"
  have t: "trim (orEmpty (f_search ?f)) = js ''LLC Boba''"
    by (simp add: trim_def orEmpty_def js_def isWhite_def noFilter_def)
  have t': "trim (js ''  LLC Boba '') = js ''LLC Boba''"
    by (simp add: trim_def js_def isWhite_def)
  have ne: "js ''LLC Boba'' \<noteq> []" by (simp add: js_def)
  have base: "filterTransactions asciiLower transactions (?f\<lparr> f_search := None \<rparr>) = transactions"
    unfolding filterTransactions_as_filter
    by (simp add: noFilter_def orEmpty_def trim_def asciiLower_def)
  from filterTransactions_search[of asciiLower ?f transactions, OF h]
  have "filterTransactions asciiLower transactions ?f =
             filter (\<lambda>r. sublist (asciiLower (js ''LLC Boba''))
                            (asciiLower (orEmpty (t_vendor r) @ js '' '' @ orEmpty (t_memo r))))
               transactions"
    unfolding t base using ne by blast
  then have "map t_id (filterTransactions asciiLower transactions ?f) = [js ''t-exp-1'']"
    by (simp add: transactions_def txn_def js_def asciiLower_def orEmpty_def sublist_code)
  with h t' show ?thesis by blast
qed

section \<open>The explain-view sentence\<close>

lemma join_snoc: "ps \<noteq> [] \<Longrightarrow> join sep ps @ sep @ x = join sep (ps @ [x])"
  by (induction sep ps rule: join.induct) simp_all

lemma sortLabel_nonempty: "sortLabel k \<noteq> []"
  by (cases k) (simp_all add: js_def)

lemma truthy_Some: "truthy v \<Longrightarrow> \<exists>s. v = Some s \<and> s \<noteq> [] \<and> orEmpty v = s"
  by (cases v) (simp_all add: truthy_def orEmpty_def)

lemma explain_parts:
  "explainTransactionsView f k = tidy (assembled_sentence f k)"
proof -
  have ty: "(case f_type f of None \<Rightarrow> js ''all transaction types''
             | Some All \<Rightarrow> js ''all transaction types''
             | Some (Only t) \<Rightarrow> labelTxnType t) = type_clause f"
    by (simp add: type_clause_def split: option.splits TxnTypeOrAll.splits)
  have da: "(if truthy (f_from f) \<and> truthy (f_to f)
               then [js ''from '' @ orEmpty (f_from f) @ js '' to '' @ orEmpty (f_to f)]
             else if truthy (f_from f) then [js ''from '' @ orEmpty (f_from f)]
             else if truthy (f_to f) then [js ''up to '' @ orEmpty (f_to f)]
             else []) = date_clause f"
    by (simp add: date_clause_def)
  have ev: "(if truthy (f_eventId f)
               then [js ''for event '' @ [ldquo] @
                     (case find (\<lambda>e. Some (e_id e) = f_eventId f) events of
                        Some ev \<Rightarrow> e_title ev | None \<Rightarrow> orEmpty (f_eventId f)) @ [rdquo]]
             else []) = event_clause f"
  proof (cases "truthy (f_eventId f)")
    case True
    then obtain s where s: "f_eventId f = Some s" "orEmpty (f_eventId f) = s"
      using truthy_Some by blast
    with True show ?thesis by (simp add: event_clause_def event_name_def split: option.splits)
  next
    case False
    then show ?thesis by (simp add: event_clause_def)
  qed
  have bi: "(if truthy (f_billId f)
               then [js ''linked to bill '' @ [ldquo] @
                     (case find (\<lambda>x. Some (b_id x) = f_billId f) bills of
                        Some b \<Rightarrow> b_title b | None \<Rightarrow> orEmpty (f_billId f)) @ [rdquo]]
             else []) = bill_clause f"
  proof (cases "truthy (f_billId f)")
    case True
    then obtain s where s: "f_billId f = Some s" "orEmpty (f_billId f) = s"
      using truthy_Some by blast
    with True show ?thesis by (simp add: bill_clause_def bill_name_def split: option.splits)
  next
    case False
    then show ?thesis by (simp add: bill_clause_def)
  qed
  have se: "(if truthy (f_search f) \<and> trim (orEmpty (f_search f)) \<noteq> []
               then [js ''matching '' @ [ldquo] @ trim (orEmpty (f_search f)) @ [rdquo]]
             else []) = search_clause f"
  proof (cases "f_search f")
    case None
    then show ?thesis by (simp add: search_clause_def truthy_def orEmpty_def trim_def)
  next
    case (Some s)
    then show ?thesis
      by (cases "s = []") (simp_all add: search_clause_def truthy_def orEmpty_def trim_def)
  qed
  have jn: "join (js '', '')
              ([type_clause f] @ date_clause f @ event_clause f @ bill_clause f @ search_clause f)
            @ js '', '' @ sortLabel k
            = join (js '', '') (explain_clauses f k)"
    unfolding explain_clauses_def
    using join_snoc[of "[type_clause f] @ date_clause f @ event_clause f @ bill_clause f
                         @ search_clause f" "js '', ''" "sortLabel k"]
    by simp
  have "explainTransactionsView f k =
          tidy (js ''Showing '' @ (join (js '', '')
              ([type_clause f] @ date_clause f @ event_clause f @ bill_clause f @ search_clause f)
            @ js '', '' @ sortLabel k) @ js ''.'')"
    unfolding explainTransactionsView_def Let_def ty da ev bi se
    by (simp add: sortLabel_nonempty)
  then show ?thesis by (simp only: jn assembled_sentence_def)
qed

lemma stray_run: "isWhite c \<Longrightarrow> dropWhile isWhite cs = comma # ds \<Longrightarrow> stray (c # cs)"
proof (induction cs arbitrary: c)
  case Nil
  then show ?case by simp
next
  case (Cons x xs)
  show ?case
  proof (cases "isWhite x")
    case True
    with Cons.prems have "dropWhile isWhite xs = comma # ds" by simp
    from Cons.IH[OF True this] show ?thesis by simp
  next
    case False
    with Cons.prems show ?thesis by simp
  qed
qed

lemma stray_tail: "stray cs \<Longrightarrow> stray (c # cs)"
  by (cases cs) simp_all

lemma tidy_nonwhite: "\<not> isWhite c \<Longrightarrow> tidy (c # cs) = c # tidy cs"
  by simp

lemma tidy_white_keep:
  "isWhite c \<Longrightarrow> \<not> (\<exists>ds. dropWhile isWhite cs = comma # ds) \<Longrightarrow> tidy (c # cs) = c # tidy cs"
  by (cases "dropWhile isWhite cs") (simp_all del: dropWhile_eq_Nil_conv)

lemma tidy_white_drop:
  "isWhite c \<Longrightarrow> dropWhile isWhite cs = comma # ds \<Longrightarrow> tidy (c # cs) = comma # tidy ds"
  by simp

lemma tidy_no_stray: "\<not> stray s \<Longrightarrow> tidy s = s"
proof (induction s)
  case Nil
  show ?case by simp
next
  case (Cons c cs)
  have ih: "tidy cs = cs" using Cons stray_tail by blast
  show ?case
  proof (cases "isWhite c")
    case False
    from tidy_nonwhite[OF False, of cs] ih show ?thesis by (simp del: tidy.simps)
  next
    case True
    have "\<not> (\<exists>ds. dropWhile isWhite cs = comma # ds)"
      using stray_run[OF True] Cons.prems by blast
    from tidy_white_keep[OF True this] ih show ?thesis by simp
  qed
qed

lemma tidy_keeps_last:
  assumes "\<not> isWhite c" "c \<noteq> comma"
  shows "\<exists>t. tidy (s @ [c]) = t @ [c]"
proof (induction "length s" arbitrary: s rule: less_induct)
  case less
  show ?case
  proof (cases s)
    case Nil
    with assms have "tidy (s @ [c]) = [] @ [c]" by (simp add: tidy_nonwhite)
    then show ?thesis by blast
  next
    case (Cons x xs)
    from less[of xs] Cons obtain t where t: "tidy (xs @ [c]) = t @ [c]" by auto
    show ?thesis
    proof (cases "isWhite x \<and> (\<exists>ds. dropWhile isWhite (xs @ [c]) = comma # ds)")
      case False
      then have "tidy (x # (xs @ [c])) = x # tidy (xs @ [c])"
        using tidy_nonwhite[of x] tidy_white_keep[of x "xs @ [c]"] by blast
      with t Cons have "tidy (s @ [c]) = (x # t) @ [c]" by simp
      then show ?thesis by blast
    next
      case True
      then obtain ds where w: "isWhite x" and dr: "dropWhile isWhite (xs @ [c]) = comma # ds"
        by blast
      have nall: "\<not> (\<forall>y\<in>set xs. isWhite y)"
      proof
        assume "\<forall>y\<in>set xs. isWhite y"
        then have "dropWhile isWhite (xs @ [c]) = [c]" using assms by (simp add: dropWhile_append)
        with dr assms show False by simp
      qed
      then have dw: "dropWhile isWhite (xs @ [c]) = dropWhile isWhite xs @ [c]"
        by (simp add: dropWhile_append)
      have "dropWhile isWhite xs \<noteq> []" using nall by simp
      then obtain ds' where ds': "dropWhile isWhite xs = comma # ds'" "ds = ds' @ [c]"
        using dw dr by (cases "dropWhile isWhite xs") auto
      have "length ds' < length s"
        using length_dropWhile_le[of isWhite xs] ds'(1) Cons by simp
      from less[OF this] obtain u where u: "tidy (ds' @ [c]) = u @ [c]" by auto
      have "tidy (x # (xs @ [c])) = comma # tidy ds"
        by (rule tidy_white_drop[OF w dr])
      with u ds'(2) Cons have "tidy (s @ [c]) = (comma # u) @ [c]" by simp
      then show ?thesis by blast
    qed
  qed
qed

lemma tidy_showing:
  assumes "\<not> isWhite c" "c \<noteq> comma"
  shows "tidy (js ''Showing '' @ c # y) = js ''Showing '' @ tidy (c # y)"
proof -
  have w: "isWhite 0x20" by (simp add: isWhite_def)
  have "dropWhile isWhite (c # y) = c # y" using assms(1) by simp
  then have "\<not> (\<exists>ds. dropWhile isWhite (c # y) = comma # ds)" using assms(2) by simp
  from tidy_white_keep[OF w this] have sp: "tidy (0x20 # c # y) = 0x20 # tidy (c # y)" .
  have "js ''Showing '' @ c # y = js ''Showing'' @ (0x20 # c # y)" by (simp add: js_def)
  moreover have "tidy (js ''Showing'' @ z) = js ''Showing'' @ tidy z" for z
    by (simp add: js_def isWhite_def)
  ultimately show ?thesis using sp by (simp add: js_def del: tidy.simps)
qed

lemma type_clause_head: "\<exists>c r. type_clause f = c # r \<and> \<not> isWhite c \<and> c \<noteq> comma"
proof (cases "f_type f")
  case None
  then show ?thesis by (simp add: type_clause_def js_def isWhite_def comma_def)
next
  case (Some ft)
  show ?thesis
  proof (cases ft)
    case All
    with Some show ?thesis by (simp add: type_clause_def js_def isWhite_def comma_def)
  next
    case (Only t)
    with Some show ?thesis
      by (cases t) (simp_all add: type_clause_def js_def isWhite_def comma_def)
  qed
qed

lemma join_head: "\<exists>rest. join sep (x # xs) = x @ rest"
  by (cases xs) simp_all

lemma explain_prefix: "prefix (js ''Showing '') (explainTransactionsView f k)"
proof -
  obtain c r where c: "type_clause f = c # r" "\<not> isWhite c" "c \<noteq> comma"
    using type_clause_head by blast
  obtain rest where "join (js '', '') (explain_clauses f k) = type_clause f @ rest"
    unfolding explain_clauses_def using join_head[of "js '', ''" "type_clause f"] by auto
  then have "assembled_sentence f k = js ''Showing '' @ c # (r @ rest @ js ''.'')"
    by (simp add: assembled_sentence_def c(1))
  then have "explainTransactionsView f k = js ''Showing '' @ tidy (c # (r @ rest @ js ''.''))"
    by (simp only: explain_parts tidy_showing[OF c(2,3)])
  then show ?thesis by (simp only: prefixI)
qed

lemma explain_suffix: "suffix (js ''.'') (explainTransactionsView f k)"
proof -
  have d: "js ''.'' = [0x2E]" by (simp add: js_def)
  have "\<not> isWhite (0x2E :: 16 word)" "(0x2E :: 16 word) \<noteq> comma"
    by (simp_all add: isWhite_def comma_def)
  from tidy_keeps_last[OF this]
  obtain t where "tidy ((js ''Showing '' @ join (js '', '') (explain_clauses f k)) @ [0x2E]) = t @ [0x2E]"
    by blast
  then have "explainTransactionsView f k = t @ js ''.''"
    by (simp add: explain_parts assembled_sentence_def d)
  then show ?thesis by (simp only: suffixI)
qed

lemma example_assembled:
  "assembled_sentence example_filter date_desc =
     js ''Showing '' @ js ''expenses'' @ js '', '' @ js ''from 2025-11-01 to 2025-11-30''
       @ js '', '' @ js ''matching '' @ [ldquo] @ js ''boba'' @ [rdquo] @ js '', ''
       @ js ''most recent first'' @ js ''.''"
  by (simp add: assembled_sentence_def explain_clauses_def type_clause_def date_clause_def
      event_clause_def bill_clause_def search_clause_def example_filter_def truthy_def
      orEmpty_def trim_def js_def isWhite_def)

lemma example_no_stray: "\<not> stray (assembled_sentence example_filter date_desc)"
  unfolding example_assembled
  by (simp add: js_def isWhite_def comma_def ldquo_def rdquo_def)

text \<open>
  C8. \<open>explainTransactionsView\<close> assembles its clauses in the fixed order type, date
  range, event link, bill link, quoted search, sort, joins them with ", ", puts
  "Showing " in front and "." behind, and tidies the result; the tidied sentence
  still starts with "Showing " and ends with ".", and is the assembled sentence
  itself when that has no white space before a comma. For the filter
  \<open>{type: "expense", from: "2025-11-01", to: "2025-11-30", search: "boba"}\<close> and the
  sort key \<open>date_desc\<close> the sentence holds, in this order, "expenses", the date
  range, the quoted search term and "most recent first".
\<close>

theorem explainTransactionsView_sentence:
  "explainTransactionsView f k = tidy (assembled_sentence f k)
   \<and> (\<not> stray (assembled_sentence f k) \<longrightarrow>
        explainTransactionsView f k = assembled_sentence f k)
   \<and> prefix (js ''Showing '') (explainTransactionsView f k)
   \<and> suffix (js ''.'') (explainTransactionsView f k)
   \<and> explainTransactionsView example_filter date_desc =
       js ''Showing '' @ js ''expenses'' @ js '', '' @ js ''from 2025-11-01 to 2025-11-30''
         @ js '', '' @ js ''matching '' @ [ldquo] @ js ''boba'' @ [rdquo] @ js '', ''
         @ js ''most recent first'' @ js ''.''"
proof (intro conjI impI)
  show "explainTransactionsView f k = tidy (assembled_sentence f k)"
    by (rule explain_parts)
  show "prefix (js ''Showing '') (explainTransactionsView f k)"
    by (rule explain_prefix)
  show "suffix (js ''.'') (explainTransactionsView f k)"
    by (rule explain_suffix)
  show "explainTransactionsView example_filter date_desc =
       js ''Showing '' @ js ''expenses'' @ js '', '' @ js ''from 2025-11-01 to 2025-11-30''
         @ js '', '' @ js ''matching '' @ [ldquo] @ js ''boba'' @ [rdquo] @ js '', ''
         @ js ''most recent first'' @ js ''.''"
    using tidy_no_stray[OF example_no_stray]
    by (simp only: explain_parts example_assembled)
  assume "\<not> stray (assembled_sentence f k)"
  then have "tidy (assembled_sentence f k) = assembled_sentence f k"
    by (rule tidy_no_stray)
  then show "explainTransactionsView f k = assembled_sentence f k"
    by (simp only: explain_parts)
qed

theorem explainTransactionsView_sentence_witness:
  "\<not> stray (assembled_sentence
        (noFilter\<lparr> f_eventId := Some (js ''e-boba''), f_billId := Some (js ''b-404'') \<rparr>) amount_asc)
   \<and> explainTransactionsView
        (noFilter\<lparr> f_eventId := Some (js ''e-boba''), f_billId := Some (js ''b-404'') \<rparr>) amount_asc
       = js ''Showing all transaction types, for event '' @ [ldquo]
           @ js ''Boba Recharge & Refresh'' @ [rdquo] @ js '', linked to bill '' @ [ldquo]
           @ js ''b-404'' @ [rdquo] @ js '', lowest amount first.''"
proof -
  let ?f = "noFilter\<lparr> f_eventId := Some (js ''e-boba''), f_billId := Some (js ''b-404'') \<rparr>"
  have a: "assembled_sentence ?f amount_asc
       = js ''Showing all transaction types, for event '' @ [ldquo]
           @ js ''Boba Recharge & Refresh'' @ [rdquo] @ js '', linked to bill '' @ [ldquo]
           @ js ''b-404'' @ [rdquo] @ js '', lowest amount first.''"
    by (simp add: assembled_sentence_def explain_clauses_def type_clause_def date_clause_def
      event_clause_def bill_clause_def search_clause_def noFilter_def truthy_def
      orEmpty_def trim_def js_def event_name_def bill_name_def events_def bills_def)
  have n: "\<not> stray (assembled_sentence ?f amount_asc)"
    unfolding a by (simp add: js_def isWhite_def comma_def ldquo_def rdquo_def)
  from explainTransactionsView_sentence[of ?f amount_asc] n
  have e: "explainTransactionsView ?f amount_asc = assembled_sentence ?f amount_asc" by blast
  show ?thesis
  proof (rule conjI)
    show "\<not> stray (assembled_sentence ?f amount_asc)" by (rule n)
    show "explainTransactionsView ?f amount_asc
       = js ''Showing all transaction types, for event '' @ [ldquo]
           @ js ''Boba Recharge & Refresh'' @ [rdquo] @ js '', linked to bill '' @ [ldquo]
           @ js ''b-404'' @ [rdquo] @ js '', lowest amount first.''"
      using e a by (rule trans)
  qed
qed

section \<open>CSV builder: escaping and reading back\<close>





















lemma crs_simps [simp]:
  "crs [] = 0" "crs (a @ b) = crs a + crs b" "crs (c # s) = (if c = cr then 1 else 0) + crs s"
  by (simp_all add: crs_def)



















section \<open>Percent-encoding: decoding undoes encoding\<close>

lemma hex_value_hex_digit: "n < 16 \<Longrightarrow> hex_value (hex_digit n) = Some n"
proof (cases "n < 10")
  case True
  then have u: "unat (0x30 + of_nat n :: 16 word) = 48 + n"
    by (simp add: unat_word_ariths unat_of_nat)
  show ?thesis using True by (simp add: hex_value_def hex_digit_def word_le_nat_alt u)
next
  case False
  assume "n < 16"
  then have u: "unat (55 + of_nat n :: 16 word) = 55 + n"
    by (simp add: unat_word_ariths unat_of_nat)
  show ?thesis using False \<open>n < 16\<close> by (simp add: hex_value_def hex_digit_def word_le_nat_alt u)
qed

lemma div_bounds: "a * k \<le> n \<Longrightarrow> n < b * k \<Longrightarrow> a \<le> n div k \<and> n div k < (b::nat)"
proof
  assume a: "a * k \<le> n" and b: "n < b * k"
  then have k: "0 < k" by (cases k) auto
  from a have "a * k div k \<le> n div k" by (rule div_le_mono)
  with k show "a \<le> n div k" by simp
  from b show "n div k < b" by (rule less_mult_imp_div_less)
qed

lemma mod64_of_div:
  assumes "m div 64 = q" "lo \<le> m" "m < hi" "64 * q \<le> lo"
  shows "lo - 64 * q \<le> m mod 64 \<and> m mod 64 < hi - 64 * (q::nat)"
proof -
  have e: "m div 64 * 64 + m mod 64 = m" by (rule div_mult_mod_eq)
  from e assms(2,3,4) show ?thesis unfolding assms(1) by linarith
qed

lemma comb2: "q1 * 64 + a0 = (cp::nat) \<Longrightarrow> q2 * 64 + a1 = q1
    \<Longrightarrow> q2 * 4096 + a1 * 64 + a0 = cp"
  by simp

lemma comb3: "q1 * 64 + a0 = (cp::nat) \<Longrightarrow> q2 * 64 + a1 = q1 \<Longrightarrow> q3 * 64 + a2 = q2
    \<Longrightarrow> q3 * 262144 + a2 * 4096 + a1 * 64 + a0 = cp"
  by simp

lemma div_4096: "(cp::nat) div 64 div 64 = cp div 4096"
  by (simp add: div_mult2_eq[symmetric])

lemma div_262144: "(cp::nat) div 4096 div 64 = cp div 262144"
  by (simp add: div_mult2_eq[symmetric])

lemma utf8_value3:
  "(cp::nat) div 4096 * 4096 + cp div 64 mod 64 * 64 + cp mod 64 = cp"
proof -
  have e1: "cp div 64 * 64 + cp mod 64 = cp" by (rule div_mult_mod_eq)
  have e2: "cp div 4096 * 64 + cp div 64 mod 64 = cp div 64"
    using div_mult_mod_eq[of "cp div 64" 64] by (simp only: div_4096)
  from comb2[OF e1 e2] show ?thesis .
qed

lemma utf8_value4:
  "(cp::nat) div 262144 * 262144 + cp div 4096 mod 64 * 4096 + cp div 64 mod 64 * 64 + cp mod 64 = cp"
proof -
  have e1: "cp div 64 * 64 + cp mod 64 = cp" by (rule div_mult_mod_eq)
  have e2: "cp div 4096 * 64 + cp div 64 mod 64 = cp div 64"
    using div_mult_mod_eq[of "cp div 64" 64] by (simp only: div_4096)
  have e3: "cp div 262144 * 64 + cp div 4096 mod 64 = cp div 4096"
    using div_mult_mod_eq[of "cp div 4096" 64] by (simp only: div_262144)
  from comb3[OF e1 e2 e3] show ?thesis .
qed

lemma utf8_decode_2:
  "2 \<le> q \<Longrightarrow> q < 32 \<Longrightarrow> r < 64 \<Longrightarrow> utf8_decode [0xC0 + q, 0x80 + r] = Some (q * 0x40 + r)"
  by (simp add: cont_def)

lemma utf8_decode_3:
  "q < 16 \<Longrightarrow> r1 < 64 \<Longrightarrow> r2 < 64 \<Longrightarrow> (q = 0 \<longrightarrow> 32 \<le> r1) \<Longrightarrow> (q = 13 \<longrightarrow> r1 < 32)
   \<Longrightarrow> utf8_decode [0xE0 + q, 0x80 + r1, 0x80 + r2] = Some (q * 0x1000 + r1 * 0x40 + r2)"
  by (auto simp: cont_def)

lemma utf8_decode_4:
  "q < 5 \<Longrightarrow> r1 < 64 \<Longrightarrow> r2 < 64 \<Longrightarrow> r3 < 64 \<Longrightarrow> (q = 0 \<longrightarrow> 16 \<le> r1) \<Longrightarrow> (q = 4 \<longrightarrow> r1 < 16)
   \<Longrightarrow> utf8_decode [0xF0 + q, 0x80 + r1, 0x80 + r2, 0x80 + r3]
       = Some (q * 0x40000 + r1 * 0x1000 + r2 * 0x40 + r3)"
  by (auto simp: cont_def)

lemma parse_hex_octet_pct:
  "b < 256 \<Longrightarrow> parse_hex_octet (hex_digit (b div 16)) (hex_digit (b mod 16)) = Some b"
proof -
  assume "b < 256"
  then have "b div 16 < 16" "b mod 16 < 16" by simp_all
  then show ?thesis
    by (simp add: parse_hex_octet_def hex_value_hex_digit)
qed

lemma decode_pct_cons:
  "b < 256 \<Longrightarrow> decodeURIComponent (pct b @ rest) =
     (if leading_ones b = 0 then then_append [of_nat b] (decodeURIComponent rest)
      else if leading_ones b = 1 \<or> leading_ones b > 4 then Inl URIError
      else
        (case continuation (leading_ones b - 1) rest of
           None \<Rightarrow> Inl URIError
         | Some octets \<Rightarrow>
             (case utf8_decode (b # octets) of
                None \<Rightarrow> Inl URIError
              | Some v \<Rightarrow>
                  then_append (utf16_encode v)
                    (decodeURIComponent (drop (3 * (leading_ones b - 1)) rest)))))"
  by (simp add: pct_def parse_hex_octet_pct)

lemma continuation_pct:
  "b < 256 \<Longrightarrow> continuation (Suc j) (pct b @ rest) = map_option (Cons b) (continuation j rest)"
  by (simp add: pct_def parse_hex_octet_pct)

lemma length_pct: "length (pct b) = 3"
  by (simp add: pct_def)

lemma decode_escapes_1:
  assumes "b < 0x80"
  shows "decodeURIComponent (pct b @ rest) = then_append [of_nat b] (decodeURIComponent rest)"
proof -
  have "b < 256" using assms by simp
  from decode_pct_cons[OF this] assms show ?thesis by (simp add: leading_ones_def)
qed

lemma decode_escapes_2:
  assumes "2 \<le> q" "q < 32" "r < 64"
  shows "decodeURIComponent (pct (0xC0 + q) @ pct (0x80 + r) @ rest)
         = then_append (utf16_encode (q * 0x40 + r)) (decodeURIComponent rest)"
proof -
  have b: "0xC0 + q < 256" "0x80 + r < 256" using assms by simp_all
  have l: "leading_ones (0xC0 + q) = 2" using assms by (simp add: leading_ones_def)
  have e: "decodeURIComponent (pct (0xC0 + q) @ R) =
      (case continuation 1 R of None \<Rightarrow> Inl URIError
       | Some octets \<Rightarrow>
           (case utf8_decode ((0xC0 + q) # octets) of None \<Rightarrow> Inl URIError
            | Some v \<Rightarrow> then_append (utf16_encode v) (decodeURIComponent (drop 3 R))))" for R
    unfolding decode_pct_cons[OF b(1)] l by (simp cong: option.case_cong)
  have c: "continuation 1 (pct (0x80 + r) @ rest) = Some [0x80 + r]"
    using continuation_pct[OF b(2), of 0 rest] by simp
  have d: "drop 3 (pct (0x80 + r) @ rest) = rest" by (simp add: length_pct)
  show ?thesis
    by (simp only: e c d option.case utf8_decode_2[OF assms])
qed

lemma decode_escapes_3:
  assumes "q < 16" "r1 < 64" "r2 < 64" "q = 0 \<longrightarrow> 32 \<le> r1" "q = 13 \<longrightarrow> r1 < 32"
  shows "decodeURIComponent (pct (0xE0 + q) @ pct (0x80 + r1) @ pct (0x80 + r2) @ rest)
         = then_append (utf16_encode (q * 0x1000 + r1 * 0x40 + r2)) (decodeURIComponent rest)"
proof -
  have b: "0xE0 + q < 256" "0x80 + r1 < 256" "0x80 + r2 < 256" using assms by simp_all
  have l: "leading_ones (0xE0 + q) = 3" using assms by (simp add: leading_ones_def)
  have e: "decodeURIComponent (pct (0xE0 + q) @ R) =
      (case continuation 2 R of None \<Rightarrow> Inl URIError
       | Some octets \<Rightarrow>
           (case utf8_decode ((0xE0 + q) # octets) of None \<Rightarrow> Inl URIError
            | Some v \<Rightarrow> then_append (utf16_encode v) (decodeURIComponent (drop 6 R))))" for R
    unfolding decode_pct_cons[OF b(1)] l by (simp cong: option.case_cong)
  have c: "continuation 2 (pct (0x80 + r1) @ pct (0x80 + r2) @ rest)
           = Some [0x80 + r1, 0x80 + r2]"
    using continuation_pct[OF b(2), of 1 "pct (0x80 + r2) @ rest"]
      continuation_pct[OF b(3), of 0 rest]
    by (simp add: numeral_2_eq_2)
  have d: "drop 6 (pct (0x80 + r1) @ pct (0x80 + r2) @ rest) = rest" by (simp add: length_pct)
  show ?thesis
    by (simp only: e c d option.case utf8_decode_3[OF assms])
qed

lemma decode_escapes_4:
  assumes "q < 5" "r1 < 64" "r2 < 64" "r3 < 64" "q = 0 \<longrightarrow> 16 \<le> r1" "q = 4 \<longrightarrow> r1 < 16"
  shows "decodeURIComponent
           (pct (0xF0 + q) @ pct (0x80 + r1) @ pct (0x80 + r2) @ pct (0x80 + r3) @ rest)
         = then_append (utf16_encode (q * 0x40000 + r1 * 0x1000 + r2 * 0x40 + r3))
             (decodeURIComponent rest)"
proof -
  have b: "0xF0 + q < 256" "0x80 + r1 < 256" "0x80 + r2 < 256" "0x80 + r3 < 256"
    using assms by simp_all
  have l: "leading_ones (0xF0 + q) = 4" using assms by (simp add: leading_ones_def)
  have e: "decodeURIComponent (pct (0xF0 + q) @ R) =
      (case continuation 3 R of None \<Rightarrow> Inl URIError
       | Some octets \<Rightarrow>
           (case utf8_decode ((0xF0 + q) # octets) of None \<Rightarrow> Inl URIError
            | Some v \<Rightarrow> then_append (utf16_encode v) (decodeURIComponent (drop 9 R))))" for R
    unfolding decode_pct_cons[OF b(1)] l by (simp cong: option.case_cong)
  have c: "continuation 3 (pct (0x80 + r1) @ pct (0x80 + r2) @ pct (0x80 + r3) @ rest)
           = Some [0x80 + r1, 0x80 + r2, 0x80 + r3]"
    using continuation_pct[OF b(2), of 2 "pct (0x80 + r2) @ pct (0x80 + r3) @ rest"]
      continuation_pct[OF b(3), of 1 "pct (0x80 + r3) @ rest"]
      continuation_pct[OF b(4), of 0 rest]
    by (simp add: numeral_3_eq_3 numeral_2_eq_2)
  have d: "drop 9 (pct (0x80 + r1) @ pct (0x80 + r2) @ pct (0x80 + r3) @ rest) = rest"
    by (simp add: length_pct)
  show ?thesis
    by (simp only: e c d option.case utf8_decode_4[OF assms])
qed

lemma div_eq_bounds: "n div k = q \<Longrightarrow> 0 < k \<Longrightarrow> q * k \<le> n \<and> n < Suc q * (k::nat)"
proof -
  assume a: "n div k = q" "0 < k"
  have e: "n div k * k + n mod k = n" by (rule div_mult_mod_eq)
  have "n mod k < k" using a(2) by simp
  with e show ?thesis unfolding a(1) by simp
qed

lemma decode_utf8:
  assumes "cp < 0x110000" "\<not> (0xD800 \<le> cp \<and> cp \<le> 0xDFFF)"
  shows "decodeURIComponent (concat (map pct (utf8_encode cp)) @ rest)
         = then_append (utf16_encode cp) (decodeURIComponent rest)"
proof -
  consider "cp < 0x80" | "0x80 \<le> cp" "cp < 0x800" | "0x800 \<le> cp" "cp < 0x10000"
    | "0x10000 \<le> cp" "cp < 0x110000"
    using assms(1) by linarith
  then show ?thesis
  proof cases
    case 1
    then have "utf8_encode cp = [cp]" "utf16_encode cp = [of_nat cp]"
      by (simp_all add: utf8_encode_def utf16_encode_def)
    with decode_escapes_1[OF 1, of rest] show ?thesis by simp
  next
    case 2
    then have u: "utf8_encode cp = [0xC0 + cp div 0x40, 0x80 + cp mod 0x40]"
      by (simp add: utf8_encode_def)
    have q: "2 \<le> cp div 0x40" "cp div 0x40 < 32"
      using div_bounds[of 2 "0x40" cp 32] 2 by simp_all
    have r: "cp mod 0x40 < 64" by simp
    have v: "cp div 0x40 * 0x40 + cp mod 0x40 = cp" by (rule div_mult_mod_eq)
    from decode_escapes_2[OF q r, of rest] show ?thesis unfolding v u by simp
  next
    case 3
    then have u: "utf8_encode cp =
        [0xE0 + cp div 0x1000, 0x80 + (cp div 0x40) mod 0x40, 0x80 + cp mod 0x40]"
      by (simp add: utf8_encode_def)
    have q: "cp div 0x1000 < 16" using div_bounds[of 0 "0x1000" cp 16] 3 by simp
    have r: "cp div 0x40 mod 0x40 < 64" "cp mod 0x40 < 64" by simp_all
    have m: "32 \<le> cp div 0x40" using div_bounds[of 32 "0x40" cp 1024] 3 by simp
    have e0: "cp div 0x1000 = 0 \<longrightarrow> 32 \<le> cp div 0x40 mod 0x40"
    proof
      assume "cp div 0x1000 = 0"
      then have z: "cp div 0x40 div 0x40 = 0" by (simp add: div_4096)
      from mod64_of_div[OF z m, of "Suc (cp div 0x40)"] show "32 \<le> cp div 0x40 mod 0x40"
        by simp
    qed
    have ed: "cp div 0x1000 = 13 \<longrightarrow> cp div 0x40 mod 0x40 < 32"
    proof
      assume a: "cp div 0x1000 = 13"
      then have z: "cp div 0x40 div 0x40 = 13" by (simp add: div_4096)
      from div_eq_bounds[OF a] have c: "53248 \<le> cp" "cp < 57344" by simp_all
      with assms(2) have "cp < 864 * 0x40" by simp
      then have hi: "cp div 0x40 < 864" by (rule less_mult_imp_div_less)
      have lo: "832 \<le> cp div 0x40" using div_bounds[of 832 "0x40" cp 1024] c by simp
      from mod64_of_div[OF z lo hi] show "cp div 0x40 mod 0x40 < 32" by simp
    qed
    from decode_escapes_3[OF q r e0 ed, of rest] show ?thesis
      unfolding utf8_value3 u by simp
  next
    case 4
    then have u: "utf8_encode cp =
        [0xF0 + cp div 0x40000, 0x80 + (cp div 0x1000) mod 0x40,
         0x80 + (cp div 0x40) mod 0x40, 0x80 + cp mod 0x40]"
      by (simp add: utf8_encode_def)
    have q: "cp div 0x40000 < 5" using div_bounds[of 0 "0x40000" cp 5] 4 by simp
    have r: "cp div 0x1000 mod 0x40 < 64" "cp div 0x40 mod 0x40 < 64" "cp mod 0x40 < 64"
      by simp_all
    have m: "16 \<le> cp div 0x1000" "cp div 0x1000 < 272"
      using div_bounds[of 16 "0x1000" cp 272] 4 by simp_all
    have f0: "cp div 0x40000 = 0 \<longrightarrow> 16 \<le> cp div 0x1000 mod 0x40"
    proof
      assume "cp div 0x40000 = 0"
      then have z: "cp div 0x1000 div 0x40 = 0" by (simp add: div_262144)
      from mod64_of_div[OF z m(1), of "Suc (cp div 0x1000)"]
      show "16 \<le> cp div 0x1000 mod 0x40" by simp
    qed
    have f4: "cp div 0x40000 = 4 \<longrightarrow> cp div 0x1000 mod 0x40 < 16"
    proof
      assume "cp div 0x40000 = 4"
      then have z: "cp div 0x1000 div 0x40 = 4" by (simp add: div_262144)
      from div_eq_bounds[OF z] have lo: "256 \<le> cp div 0x1000" by simp
      from mod64_of_div[OF z lo m(2)] show "cp div 0x1000 mod 0x40 < 16" by simp
    qed
    from decode_escapes_4[OF q r f0 f4, of rest] show ?thesis
      unfolding utf8_value4 u by simp
  qed
qed

lemma surrogate_nat:
  "isLead c \<longleftrightarrow> 0xD800 \<le> unat c \<and> unat c \<le> 0xDBFF"
  "isTrail c \<longleftrightarrow> 0xDC00 \<le> unat c \<and> unat c \<le> 0xDFFF"
  by (simp_all add: isLead_def isTrail_def word_le_nat_alt)

lemma unat_16_bound: "unat (c :: 16 word) < 0x10000"
  using unsigned_less[of c, where 'a = nat] by simp

lemma utf16_encode_unit: "utf16_encode (unat (c :: 16 word)) = [c]"
  using unat_16_bound[of c] by (simp add: utf16_encode_def)

lemma pair_code_point_range:
  assumes "isLead c" "isTrail c2"
  shows "0x10000 \<le> pair_code_point c c2 \<and> pair_code_point c c2 < 0x110000"
proof -
  have "unat c - 0xD800 \<le> 0x3FF" "unat c2 - 0xDC00 \<le> 0x3FF"
    using assms unfolding surrogate_nat by linarith+
  then have "(unat c - 0xD800) * 0x400 + (unat c2 - 0xDC00) \<le> 0x3FF * 0x400 + 0x3FF"
    by (intro add_mono mult_le_mono1) 
  then show ?thesis by (simp add: pair_code_point_def)
qed

lemma utf16_encode_pair:
  assumes "isLead c" "isTrail c2"
  shows "utf16_encode (pair_code_point c c2) = [c, c2]"
proof -
  let ?h = "unat c - 0xD800" and ?l = "unat c2 - 0xDC00"
  have l: "?l < 0x400" using assms unfolding surrogate_nat by linarith
  have hd: "(?h * 0x400 + ?l) div 0x400 = ?h" using l by simp
  have lm: "(?h * 0x400 + ?l) mod 0x400 = ?l" using l by simp
  have h1: "0xD800 + ?h = unat c" and l1: "0xDC00 + ?l = unat c2"
    using assms unfolding surrogate_nat by linarith+
  have "utf16_encode (pair_code_point c c2)
        = [of_nat (0xD800 + (?h * 0x400 + ?l) div 0x400),
           of_nat (0xDC00 + (?h * 0x400 + ?l) mod 0x400)]"
    by (simp add: utf16_encode_def pair_code_point_def)
  then show ?thesis by (simp only: hd lm h1 l1 of_nat_unat ucast_id)
qed

lemma unreserved_not_percent: "unreserved c \<Longrightarrow> c \<noteq> percent"
  by (auto simp: unreserved_def percent_def)

lemma then_append_Inr: "then_append p r = Inr e \<longleftrightarrow> (\<exists>e'. r = Inr e' \<and> e = p @ e')"
  by (cases r) (auto simp: then_append_def)

lemma then_append_Inr_simp [simp]: "then_append p (Inr s) = Inr (p @ s)"
  by (simp add: then_append_def)

lemma decode_encode:
  "encodeURIComponent s = Inr e \<Longrightarrow> decodeURIComponent e = Inr s"
proof (induction s arbitrary: e rule: encodeURIComponent.induct)
  case 1
  then show ?case by simp
next
  case (2 c cs)
  show ?case
  proof (cases "unreserved c")
    case True
    with "2.prems" obtain e' where e': "encodeURIComponent cs = Inr e'" "e = [c] @ e'"
      by (auto simp: then_append_Inr)
    from "2.IH"(1)[OF True e'(1)] have "decodeURIComponent e' = Inr cs" .
    with unreserved_not_percent[OF True] e'(2) show ?thesis by simp
  next
    case nu: False
    show ?thesis
    proof (cases "isTrail c")
      case True
      with nu "2.prems" show ?thesis by simp
    next
      case nt: False
      show ?thesis
      proof (cases "isLead c")
        case True
        with nu nt "2.prems" obtain c2 cs' e' where
          p: "cs = c2 # cs'" "isTrail c2" "encodeURIComponent cs' = Inr e'"
             "e = concat (map pct (utf8_encode (pair_code_point c c2))) @ e'"
          by (auto simp: then_append_Inr split: list.splits if_splits)
        from "2.IH"(2)[OF nu nt True p(1,2,3)] have d: "decodeURIComponent e' = Inr cs'" .
        have r: "pair_code_point c c2 < 0x110000"
             "\<not> (0xD800 \<le> pair_code_point c c2 \<and> pair_code_point c c2 \<le> 0xDFFF)"
          using pair_code_point_range[OF True p(2)] by simp_all
        show ?thesis
          unfolding p(4) decode_utf8[OF r] d utf16_encode_pair[OF True p(2)] p(1) by simp
      next
        case nl: False
        with nu nt "2.prems" obtain e' where
          p: "encodeURIComponent cs = Inr e'" "e = concat (map pct (utf8_encode (unat c))) @ e'"
          by (auto simp: then_append_Inr)
        from "2.IH"(3)[OF nu nt nl p(1)] have d: "decodeURIComponent e' = Inr cs" .
        have r: "unat c < 0x110000" "\<not> (0xD800 \<le> unat c \<and> unat c \<le> 0xDFFF)"
          using unat_16_bound[of c] nt nl by (auto simp: surrogate_nat)
        show ?thesis
          unfolding p(2) decode_utf8[OF r] d utf16_encode_unit by simp
      qed
    qed
  qed
qed

section \<open>Router: the path of an encoded id\<close>

lemma url_safe_range: "url_safe c \<Longrightarrow> 0x21 \<le> unat c \<and> unat c \<le> 0x7E"
  unfolding url_safe_def unreserved_def percent_def word_le_nat_alt
  by (elim disjE conjE) simp_all

lemma url_safe_not_c0: "url_safe c \<Longrightarrow> \<not> c0_or_space c"
  using url_safe_range[of c] by (simp add: c0_or_space_def word_le_nat_alt)

lemma url_safe_not_tab: "url_safe c \<Longrightarrow> \<not> tab_or_newline c"
  using url_safe_range[of c] by (auto simp: tab_or_newline_def)

lemma url_safe_not_surrogate: "url_safe c \<Longrightarrow> \<not> isLead c \<and> \<not> isTrail c"
  using url_safe_range[of c] by (simp add: isLead_def isTrail_def word_le_nat_alt)

lemma url_safe_not_special:
  "url_safe c \<Longrightarrow> c \<notin> {0x22, 0x23, 0x2F, 0x3A, 0x3C, 0x3E, 0x3F, 0x5C, 0x5E, 0x60, 0x7B, 0x7D}"
  unfolding url_safe_def unreserved_def percent_def word_le_nat_alt
  by (elim disjE conjE) auto

lemma url_safe_not_slash: "url_safe c \<Longrightarrow> \<not> is_slash c \<and> c \<noteq> slash"
  using url_safe_not_special[of c] by (auto simp: is_slash_def slash_def backslash_def)

lemma url_safe_not_in_path_set: "url_safe c \<Longrightarrow> \<not> in_path_set (unat c)"
proof -
  assume a: "url_safe c"
  have "unat c = n \<Longrightarrow> c = of_nat n" for n by auto
  then have "unat c \<notin> {0x20, 0x22, 0x23, 0x3C, 0x3E, 0x3F, 0x5E, 0x60, 0x7B, 0x7D}"
    using url_safe_not_special[OF a] url_safe_range[OF a] by fastforce
  with url_safe_range[OF a] show ?thesis by (simp add: in_path_set_def)
qed

lemma dropWhile_none: "\<forall>c\<in>set s. \<not> P c \<Longrightarrow> dropWhile P s = s"
  by (cases s) simp_all

lemma url_preprocess_safe:
  assumes "\<forall>c\<in>set s. \<not> c0_or_space c" "\<forall>c\<in>set s. \<not> tab_or_newline c"
  shows "url_preprocess s = s"
proof -
  have "dropWhile c0_or_space s = s" using assms(1) by (rule dropWhile_none)
  moreover have "dropWhile c0_or_space (rev s) = rev s"
    using assms(1) by (intro dropWhile_none) simp
  ultimately show ?thesis using assms(2) by (simp add: url_preprocess_def)
qed

lemma no_colon_no_scheme_sep:
  "0x3A \<notin> set s \<Longrightarrow> \<not> str_includes s (js ''://'')"
proof
  assume a: "0x3A \<notin> set s" and "str_includes s (js ''://'')"
  then have "sublist (js ''://'') s" by (simp add: str_includes_def)
  then have "set (js ''://'') \<subseteq> set s" by (rule set_mono_sublist)
  with a show False by (simp add: js_def)
qed

lemma split_at_none: "\<forall>c\<in>set a. \<not> sep c \<Longrightarrow> split_at sep a = [a]"
  by (induction a) simp_all

lemma split_at_append:
  "\<forall>c\<in>set a. \<not> sep c \<Longrightarrow> sep x \<Longrightarrow> split_at sep (a @ x # b) = a # split_at sep b"
  by (induction a) simp_all

lemma path_encode_safe: "\<forall>c\<in>set e. url_safe c \<Longrightarrow> path_encode e = e"
proof (induction e)
  case Nil
  show ?case by simp
next
  case (Cons c e)
  then have "url_safe c" "path_encode e = e" by simp_all
  with url_safe_not_surrogate[of c] url_safe_not_in_path_set[of c] show ?case by simp
qed

lemma takeWhile_all: "\<forall>c\<in>set s. P c \<Longrightarrow> takeWhile P s = s"
  by (induction s) simp_all

lemma relative_pathname_two:
  assumes kw: "\<forall>c\<in>set kw. url_safe c" "\<not> single_dot kw" "\<not> double_dot kw"
      and e: "\<forall>c\<in>set e. url_safe c" "\<not> single_dot e" "\<not> double_dot e"
  shows "relative_pathname (slash # kw @ slash # e) = slash # kw @ slash # e"
proof -
  have ns: "\<forall>c\<in>set kw. \<not> is_slash c" "\<forall>c\<in>set e. \<not> is_slash c"
    using kw(1) e(1) url_safe_not_slash by blast+
  have nq: "\<forall>c\<in>set (kw @ slash # e). c \<noteq> 0x3F \<and> c \<noteq> 0x23"
    using kw(1) e(1) url_safe_not_special by (auto simp: slash_def)
  have raw: "takeWhile (\<lambda>c. c \<noteq> 0x3F \<and> c \<noteq> 0x23) (kw @ slash # e) = kw @ slash # e"
    using nq by (rule takeWhile_all)
  have "is_slash slash" by (simp add: is_slash_def)
  from split_at_append[OF ns(1) this, of e] split_at_none[OF ns(2)]
  have sp: "split_at is_slash (kw @ slash # e) = [kw, e]" by simp
  have pe: "path_encode kw = kw" "path_encode e = e"
    using kw(1) e(1) by (simp_all add: path_encode_safe)
  have ps: "path_state [] [kw, e] = [kw, e]"
    using kw(2,3) e(2,3) by simp
  show ?thesis
    by (simp add: relative_pathname_def is_slash_def Let_def raw sp pe ps del: path_state.simps)
qed

lemma strip_slashes_two:
  assumes "kw \<noteq> []" "e \<noteq> []" "slash \<notin> set kw" "slash \<notin> set e"
  shows "strip_slashes (slash # kw @ slash # e) = kw @ slash # e"
proof -
  obtain k ks where k: "kw = k # ks" using assms(1) by (cases kw) auto
  then have "k \<noteq> slash" using assms(3) by auto
  then have a: "dropWhile (\<lambda>c. c = slash) (slash # kw @ slash # e) = kw @ slash # e"
    by (simp add: k)
  have "last e \<noteq> slash" using assms(2,4) last_in_set by metis
  then obtain l ls where l: "rev e = l # ls" "l \<noteq> slash"
    using assms(2) by (cases "rev e") (auto simp: last_rev hd_rev)
  have "dropWhile (\<lambda>c. c = slash) (rev (kw @ slash # e)) = rev (kw @ slash # e)"
    using l by simp
  with a show ?thesis by (simp add: strip_slashes_def)
qed

lemma parts_two:
  assumes "kw \<noteq> []" "e \<noteq> []" "slash \<notin> set kw" "slash \<notin> set e"
  shows "filter (\<lambda>p. p \<noteq> []) (split_at (\<lambda>c. c = slash) (strip_slashes (slash # kw @ slash # e)))
         = [kw, e]"
proof -
  have a: "\<forall>c\<in>set kw. \<not> c = slash" "\<forall>c\<in>set e. \<not> c = slash"
    using assms(3,4) by auto
  from split_at_append[of kw "\<lambda>c. c = slash" slash e, OF a(1)] split_at_none[of e "\<lambda>c. c = slash", OF a(2)]
  have "split_at (\<lambda>c. c = slash) (kw @ slash # e) = [kw, e]" by simp
  then show ?thesis using assms by (simp add: strip_slashes_two)
qed

lemma new_URL_two:
  assumes kw: "kw \<noteq> []" "\<forall>c\<in>set kw. url_safe c" "\<not> single_dot kw" "\<not> double_dot kw"
      and e: "\<forall>c\<in>set e. url_safe c" "\<not> single_dot e" "\<not> double_dot e"
  shows "new_URL platform (Some (js ''https://example.com'')) (slash # kw @ slash # e)
         = Some (slash # kw @ slash # e)"
proof -
  let ?s = "slash # kw @ slash # e"
  have safe: "\<forall>c\<in>set ?s. \<not> c0_or_space c" "\<forall>c\<in>set ?s. \<not> tab_or_newline c"
    using kw(2) e(1) url_safe_not_c0 url_safe_not_tab
    by (auto simp: slash_def c0_or_space_def tab_or_newline_def)
  have pre: "url_preprocess ?s = ?s" using safe by (rule url_preprocess_safe)
  have sch: "\<not> has_scheme ?s" by (simp add: has_scheme_def ascii_alpha_def slash_def)
  obtain k ks where k: "kw = k # ks" using kw(1) by (cases kw) auto
  then have "\<not> is_slash k" using kw(2) url_safe_not_slash by auto
  then have au: "\<not> has_authority ?s" by (simp add: has_authority_def k)
  show ?thesis
    using sch au
    by (simp add: new_URL_def pre Let_def relative_pathname_two[OF kw(2,3,4) e])
qed

section \<open>Router: what an encoded id looks like\<close>

lemma unreserved_hex_digit: "n < 16 \<Longrightarrow> unreserved (hex_digit n)"
proof (cases "n < 10")
  case True
  then have u: "unat (0x30 + of_nat n :: 16 word) = 48 + n"
    by (simp add: unat_word_ariths unat_of_nat)
  show ?thesis using True by (simp add: unreserved_def hex_digit_def word_le_nat_alt u)
next
  case False
  assume "n < 16"
  then have u: "unat (55 + of_nat n :: 16 word) = 55 + n"
    by (simp add: unat_word_ariths unat_of_nat)
  show ?thesis using False \<open>n < 16\<close> by (simp add: unreserved_def hex_digit_def word_le_nat_alt u)
qed

lemma pct_safe: "b < 256 \<Longrightarrow> \<forall>c\<in>set (pct b). url_safe c"
proof -
  assume "b < 256"
  then have "b div 16 < 16" "b mod 16 < 16" by simp_all
  then show ?thesis by (simp add: pct_def url_safe_def unreserved_hex_digit)
qed

lemma utf8_encode_bytes: "cp < 0x110000 \<Longrightarrow> \<forall>b\<in>set (utf8_encode cp). b < 256"
proof -
  assume a: "cp < 0x110000"
  have m: "n mod 64 < 128" for n :: nat
    using mod_less_divisor[of 64 n] by linarith
  have d1: "cp < 0x800 \<Longrightarrow> cp div 0x40 < 64"
    by (rule less_mult_imp_div_less) simp
  have d2: "cp < 0x10000 \<Longrightarrow> cp div 0x1000 < 32"
    by (rule less_mult_imp_div_less) simp
  have d3: "cp div 0x40000 < 16" using a by (intro less_mult_imp_div_less) simp
  show ?thesis
    using d1 d2 d3 by (simp add: utf8_encode_def m)
qed

lemma escapes_safe:
  "cp < 0x110000 \<Longrightarrow> \<forall>c\<in>set (concat (map pct (utf8_encode cp))). url_safe c"
  using utf8_encode_bytes[of cp] pct_safe by auto

lemma encode_cases:
  assumes "encodeURIComponent (c # cs) = Inr e"
  obtains (plain) e' where "unreserved c" "encodeURIComponent cs = Inr e'" "e = c # e'"
    | (pair) c2 cs' e' where "\<not> unreserved c" "isLead c" "isTrail c2" "cs = c2 # cs'"
        "encodeURIComponent cs' = Inr e'"
        "e = concat (map pct (utf8_encode (pair_code_point c c2))) @ e'"
    | (unit) e' where "\<not> unreserved c" "\<not> isLead c" "\<not> isTrail c"
        "encodeURIComponent cs = Inr e'" "e = concat (map pct (utf8_encode (unat c))) @ e'"
proof (cases "unreserved c")
  case True
  with assms plain show ?thesis by (auto simp: then_append_Inr)
next
  case nu: False
  show ?thesis
  proof (cases "isTrail c")
    case True
    with nu assms show ?thesis by simp
  next
    case nt: False
    show ?thesis
    proof (cases "isLead c")
      case True
      with nu nt assms pair show ?thesis
        by (auto simp: then_append_Inr split: list.splits if_splits)
    next
      case False
      with nu nt assms unit show ?thesis by (auto simp: then_append_Inr)
    qed
  qed
qed

lemma encode_safe: "encodeURIComponent s = Inr e \<Longrightarrow> \<forall>c\<in>set e. url_safe c"
proof (induction s arbitrary: e rule: encodeURIComponent.induct)
  case 1
  then show ?case by simp
next
  case (2 c cs)
  from "2.prems" show ?case
  proof (cases rule: encode_cases)
    case (plain e')
    with "2.IH"(1) show ?thesis by (simp add: url_safe_def)
  next
    case (pair c2 cs' e')
    have nt: "\<not> isTrail c" using pair(2) by (auto simp: surrogate_nat)
    from "2.IH"(2)[OF pair(1) nt pair(2,4,3,5)] have "\<forall>c\<in>set e'. url_safe c" .
    moreover have "pair_code_point c c2 < 0x110000"
      using pair_code_point_range[OF pair(2,3)] by simp
    ultimately show ?thesis using escapes_safe pair(6) by auto
  next
    case (unit e')
    from "2.IH"(3)[OF unit(1,3,2,4)] have "\<forall>c\<in>set e'. url_safe c" .
    moreover have "unat c < 0x110000" using unat_16_bound[of c] by simp
    ultimately show ?thesis using escapes_safe unit(5) by auto
  qed
qed

lemma utf8_head:
  "cp < 0x110000 \<Longrightarrow> \<exists>b bs. utf8_encode cp = b # bs \<and> b < 256 \<and> (b = 0x2E \<longrightarrow> cp = 0x2E)"
  using utf8_encode_bytes[of cp] by (auto simp: utf8_encode_def)

lemma encode_head_escaped:
  assumes "\<not> unreserved c" "encodeURIComponent (c # cs) = Inr e"
  shows "\<exists>b e'. e = pct b @ e' \<and> b < 256 \<and> b \<noteq> 0x2E"
  using assms(2)
proof (cases rule: encode_cases)
  case (plain e')
  with assms(1) show ?thesis by simp
next
  case (pair c2 cs' e')
  from pair_code_point_range[OF pair(2,3)]
  have r: "0x10000 \<le> pair_code_point c c2" "pair_code_point c c2 < 0x110000" by simp_all
  from utf8_head[OF r(2)] obtain b bs where
    b: "utf8_encode (pair_code_point c c2) = b # bs" "b < 256" "b = 0x2E \<longrightarrow> pair_code_point c c2 = 0x2E"
    by blast
  with r(1) have "b \<noteq> 0x2E" by auto
  with b pair(6) show ?thesis by auto
next
  case (unit e')
  have r: "unat c < 0x110000" using unat_16_bound[of c] by simp
  from utf8_head[OF r] obtain b bs where
    b: "utf8_encode (unat c) = b # bs" "b < 256" "b = 0x2E \<longrightarrow> unat c = 0x2E"
    by blast
  have "unat c \<noteq> 0x2E"
  proof
    assume "unat c = 0x2E"
    then have "c = 0x2E" by (metis of_nat_unat ucast_id of_nat_numeral)
    with assms(1) show False by (simp add: unreserved_def)
  qed
  with b unit(5) show ?thesis by auto
qed

lemma encode_nonempty: "encodeURIComponent s = Inr e \<Longrightarrow> s \<noteq> [] \<Longrightarrow> e \<noteq> []"
proof -
  assume a: "encodeURIComponent s = Inr e" "s \<noteq> []"
  then obtain c cs where s: "s = c # cs" by (cases s) auto
  show ?thesis
  proof (cases "unreserved c")
    case True
    with a(1) s show ?thesis by (auto simp: then_append_Inr)
  next
    case False
    from encode_head_escaped[OF False] a(1) s show ?thesis by (auto simp: pct_def)
  qed
qed

lemma lower_unit_upper:
  assumes "0x41 \<le> (h :: 16 word)" "h \<le> 0x5A"
  shows "unat (h + 0x20) = unat h + 32"
proof -
  have "unat h \<le> 90" using assms(2) by (simp add: word_le_nat_alt)
  then show ?thesis by (simp add: unat_word_ariths)
qed

lemma hex_value_lower:
  "hex_value (if 0x41 \<le> h \<and> h \<le> 0x5A then h + 0x20 else h) = hex_value h"
proof (cases "0x41 \<le> h \<and> h \<le> 0x5A")
  case False
  then show ?thesis by auto
next
  case True
  then have u: "unat (h + 0x20) = unat h + 32" by (simp add: lower_unit_upper)
  have r: "65 \<le> unat h" "unat h \<le> 90" using True by (simp_all add: word_le_nat_alt)
  have "hex_value (h + 0x20) = hex_value h"
    using r by (simp add: hex_value_def word_le_nat_alt u)
  with True show ?thesis by simp
qed

lemma lower_eq_nonletter:
  assumes "\<not> (0x61 \<le> x \<and> x \<le> 0x7A)" "(if 0x41 \<le> h \<and> h \<le> 0x5A then h + 0x20 else h) = (x :: 16 word)"
  shows "h = x"
proof (cases "0x41 \<le> h \<and> h \<le> 0x5A")
  case False
  with assms(2) show ?thesis by simp
next
  case True
  then have u: "unat (h + 0x20) = unat h + 32" by (simp add: lower_unit_upper)
  have r: "65 \<le> unat h" "unat h \<le> 90" using True by (simp_all add: word_le_nat_alt)
  from True assms(2) have "x = h + 0x20" by simp
  with u r have "0x61 \<le> x \<and> x \<le> 0x7A" by (simp add: word_le_nat_alt)
  with assms(1) show ?thesis by simp
qed

lemma pct_lower_2e:
  assumes "b < 256" "asciiLower (pct b) = js ''%2e''"
  shows "b = 0x2E"
proof -
  let ?f = "\<lambda>h :: 16 word. if 0x41 \<le> h \<and> h \<le> 0x5A then h + 0x20 else h"
  from assms(2) have h: "?f (hex_digit (b div 16)) = 0x32" "?f (hex_digit (b mod 16)) = 0x65"
    by (simp_all add: asciiLower_def pct_def js_def)
  have "hex_value (hex_digit (b div 16)) = hex_value (0x32 :: 16 word)"
    using hex_value_lower[of "hex_digit (b div 16)"] h(1) by simp
  then have a: "hex_value (hex_digit (b div 16)) = Some 2" by (simp add: hex_value_def)
  have "hex_value (hex_digit (b mod 16)) = hex_value (0x65 :: 16 word)"
    using hex_value_lower[of "hex_digit (b mod 16)"] h(2) by simp
  then have c: "hex_value (hex_digit (b mod 16)) = Some 14" by (simp add: hex_value_def)
  from a c have "parse_hex_octet (hex_digit (b div 16)) (hex_digit (b mod 16)) = Some 46"
    by (simp add: parse_hex_octet_def)
  with parse_hex_octet_pct[OF assms(1)] show ?thesis by simp
qed

lemma asciiLower_append: "asciiLower (a @ b) = asciiLower a @ asciiLower b"
  by (simp add: asciiLower_def)

lemma asciiLower_length: "length (asciiLower a) = length a"
  by (simp add: asciiLower_def)

lemma escaped_not_percent_dot:
  assumes "b < 256" "b \<noteq> 0x2E" "asciiLower (pct b @ e') = js ''%2e'' @ t"
  shows False
proof -
  have "asciiLower (pct b) @ asciiLower e' = js ''%2e'' @ t"
    using assms(3) by (simp add: asciiLower_append)
  moreover have "length (asciiLower (pct b)) = length (js ''%2e'')"
    by (simp add: asciiLower_length length_pct js_def)
  ultimately have "asciiLower (pct b) = js ''%2e''" by (metis append_eq_append_conv)
  from pct_lower_2e[OF assms(1) this] assms(2) show False by simp
qed

lemma asciiLower_Cons_nonletter:
  assumes "asciiLower e = x # t" "\<not> (0x61 \<le> x \<and> x \<le> 0x7A)"
  shows "\<exists>e'. e = x # e' \<and> asciiLower e' = t"
proof -
  from assms(1) obtain h e' where e: "e = h # e'" by (cases e) (auto simp: asciiLower_def)
  with assms(1) have h: "(if 0x41 \<le> h \<and> h \<le> 0x5A then h + 0x20 else h) = x" "asciiLower e' = t"
    by (simp_all add: asciiLower_def)
  from lower_eq_nonletter[OF assms(2) h(1)] e h(2) show ?thesis by simp
qed

text \<open>An encoded component does not begin with an escaped dot.\<close>

lemma encode_not_percent_dot:
  assumes "encodeURIComponent s = Inr e" "asciiLower e = js ''%2e'' @ t"
  shows False
proof -
  have "asciiLower e = 0x25 # (js ''2e'' @ t)" using assms(2) by (simp add: js_def)
  from asciiLower_Cons_nonletter[OF this] obtain e' where e: "e = 0x25 # e'" by auto
  then obtain c cs where s: "s = c # cs" using assms(1) by (cases s) auto
  have nu: "\<not> unreserved c"
  proof
    assume "unreserved c"
    with assms(1) s e have "c = 0x25" by (auto simp: then_append_Inr)
    with \<open>unreserved c\<close> show False by (simp add: unreserved_def)
  qed
  from encode_head_escaped[OF nu] assms(1) s obtain b e'' where
    b: "e = pct b @ e''" "b < 256" "b \<noteq> 0x2E" by blast
  from escaped_not_percent_dot[OF b(2,3)] assms(2) b(1) show False by simp
qed

lemma encode_dot_head:
  assumes "encodeURIComponent s = Inr (dot # e')"
  shows "\<exists>cs. s = dot # cs \<and> encodeURIComponent cs = Inr e'"
proof -
  obtain c cs where s: "s = c # cs" using assms by (cases s) auto
  show ?thesis
  proof (cases "unreserved c")
    case True
    with assms s show ?thesis by (auto simp: then_append_Inr)
  next
    case False
    from encode_head_escaped[OF False] assms s obtain b e'' where "dot # e' = pct b @ e''"
      by metis
    then show ?thesis by (simp add: pct_def dot_def percent_def)
  qed
qed

lemma encode_single_dot:
  assumes "encodeURIComponent s = Inr e" "single_dot e"
  shows "s = js ''.''"
proof -
  from assms(2) have "e = js ''.'' \<or> asciiLower e = js ''%2e'' @ []"
    by (simp add: single_dot_def)
  with encode_not_percent_dot[OF assms(1)] have "e = js ''.''" by blast
  with decode_encode[OF assms(1)] show ?thesis
    by (simp add: js_def percent_def)
qed

lemma encode_double_dot:
  assumes "encodeURIComponent s = Inr e" "double_dot e"
  shows "s = js ''..''"
proof -
  from assms(2) have "e = js ''..'' \<or> asciiLower e = js ''.%2e''
      \<or> asciiLower e = js ''%2e'' @ js ''.'' \<or> asciiLower e = js ''%2e'' @ js ''%2e''"
    by (simp add: double_dot_def js_def)
  with encode_not_percent_dot[OF assms(1)]
  consider "e = js ''..''" | "asciiLower e = js ''.%2e''" by blast
  then show ?thesis
  proof cases
    case 1
    with decode_encode[OF assms(1)] show ?thesis by (simp add: js_def percent_def)
  next
    case 2
    then have "asciiLower e = dot # js ''%2e''" by (simp add: js_def dot_def)
    from asciiLower_Cons_nonletter[OF this] obtain e' where
      e: "e = dot # e'" "asciiLower e' = js ''%2e''" by (auto simp: dot_def)
    from encode_dot_head[of s e'] assms(1) e(1) obtain cs where
      "encodeURIComponent cs = Inr e'" by auto
    from encode_not_percent_dot[OF this, of "[]"] e(2) show ?thesis by simp
  qed
qed

lemma keyword_safe:
  "\<forall>c\<in>set (js ''events''). url_safe c" "\<forall>c\<in>set (js ''bills''). url_safe c"
  by (simp_all add: js_def url_safe_def unreserved_def)

lemma keyword_not_dot:
  "\<not> single_dot (js ''events'')" "\<not> double_dot (js ''events'')"
  "\<not> single_dot (js ''bills'')" "\<not> double_dot (js ''bills'')"
  by (simp_all add: single_dot_def double_dot_def js_def asciiLower_def)

lemma routeOf_detail:
  assumes "detail_id_ok i" "encodeURIComponent i = Inr e"
      and kw: "kw \<noteq> []" "\<forall>c\<in>set kw. url_safe c" "\<not> single_dot kw" "\<not> double_dot kw"
  shows "new_URL platform (Some (js ''https://example.com'')) (slash # kw @ slash # e)
           = Some (slash # kw @ slash # e)"
    and "filter (\<lambda>p. p \<noteq> [])
           (split_at (\<lambda>c. c = slash) (strip_slashes (slash # kw @ slash # e))) = [kw, e]"
    and "\<not> str_includes (slash # kw @ slash # e) (js ''://'')"
    and "e \<noteq> []" and "decodeURIComponent e = Inr i"
proof -
  have i: "i \<noteq> []" "i \<noteq> js ''.''" "i \<noteq> js ''..''"
    using assms(1) by (simp_all add: detail_id_ok_def)
  have safe: "\<forall>c\<in>set e. url_safe c" using assms(2) by (rule encode_safe)
  have nd: "\<not> single_dot e" "\<not> double_dot e"
    using encode_single_dot[OF assms(2)] encode_double_dot[OF assms(2)] i by blast+
  show ne: "e \<noteq> []" using encode_nonempty[OF assms(2) i(1)] .
  show "decodeURIComponent e = Inr i" using assms(2) by (rule decode_encode)
  show "new_URL platform (Some (js ''https://example.com'')) (slash # kw @ slash # e)
           = Some (slash # kw @ slash # e)"
    using kw safe nd by (rule new_URL_two)
  have ns: "slash \<notin> set kw" "slash \<notin> set e"
    using kw(2) safe url_safe_not_slash by blast+
  show "filter (\<lambda>p. p \<noteq> [])
           (split_at (\<lambda>c. c = slash) (strip_slashes (slash # kw @ slash # e))) = [kw, e]"
    using kw(1) ne ns by (rule parts_two)
  have "0x3A \<notin> set (slash # kw @ slash # e)"
    using kw(2) safe url_safe_not_special by (auto simp: slash_def)
  then show "\<not> str_includes (slash # kw @ slash # e) (js ''://'')"
    by (rule no_colon_no_scheme_sep)
qed

section \<open>Router: round trip\<close>

lemma unreserved_not_surrogate: "unreserved c \<Longrightarrow> \<not> isLead c \<and> \<not> isTrail c"
  using url_safe_not_surrogate[of c] by (simp add: url_safe_def)

lemma lead_not_trail: "isLead c \<Longrightarrow> \<not> isTrail c"
  by (auto simp: surrogate_nat)

lemma encode_total: "wellFormed s \<Longrightarrow> \<exists>e. encodeURIComponent s = Inr e"
proof (induction s rule: wellFormed.induct)
  case 1
  show ?case by simp
next
  case (2 c)
  then show ?case by simp
next
  case (3 c c2 cs)
  show ?case
  proof (cases "isLead c")
    case True
    with "3.prems" have t: "isTrail c2" and w: "wellFormed cs" by simp_all
    from "3.IH"(1)[OF True w] obtain e where "encodeURIComponent cs = Inr e" by blast
    with True t lead_not_trail[OF True] unreserved_not_surrogate[of c] show ?thesis by auto
  next
    case False
    with "3.prems" have t: "\<not> isTrail c" and w: "wellFormed (c2 # cs)" by simp_all
    from "3.IH"(2)[OF False w] obtain e where "encodeURIComponent (c2 # cs) = Inr e" by blast
    with False t show ?thesis by (cases "unreserved c") simp_all
  qed
qed

lemma routeOf_fixed:
  "routeOf platform (js ''/'') = Inr Home"
  "routeOf platform (js ''/events'') = Inr Events"
  "routeOf platform (js ''/ledger'') = Inr Ledger"
  "routeOf platform (js ''/bills'') = Inr Bills"
  "routeOf platform (js ''/proposals'') = Inr Proposals"
  "routeOf platform (js ''/team'') = Inr Team"
  "routeOf platform (js ''/admin'') = Inr Admin"
  by (simp_all add: routeOf_def new_URL_def js_def str_includes_def sublist_code
      url_preprocess_def c0_or_space_def tab_or_newline_def has_scheme_def ascii_alpha_def
      has_authority_def is_slash_def slash_def backslash_def relative_pathname_def
      strip_slashes_def Let_def in_path_set_def isLead_def isTrail_def single_dot_def
      double_dot_def asciiLower_def)

lemma routeOf_event_detail:
  assumes "detail_id_ok i" "encodeURIComponent i = Inr e"
  shows "routeOf platform (js ''/events/'' @ e) = Inr (EventDetail i)"
proof -
  have s: "js ''/events/'' @ e = slash # js ''events'' @ slash # e"
    by (simp add: js_def slash_def)
  have kw: "js ''events'' \<noteq> []" by (simp add: js_def)
  note f = routeOf_detail[OF assms kw keyword_safe(1) keyword_not_dot(1,2)]
  show ?thesis
    unfolding s routeOf_def using f(3,4) by (simp add: f(1,2,5) Let_def)
qed

lemma routeOf_bill_detail:
  assumes "detail_id_ok i" "encodeURIComponent i = Inr e"
  shows "routeOf platform (js ''/bills/'' @ e) = Inr (BillDetail i)"
proof -
  have s: "js ''/bills/'' @ e = slash # js ''bills'' @ slash # e"
    by (simp add: js_def slash_def)
  have kw: "js ''bills'' \<noteq> []" by (simp add: js_def)
  have d: "js ''bills'' \<noteq> js ''events''" "js ''bills'' \<noteq> js ''ledger''" by (simp_all add: js_def)
  note f = routeOf_detail[OF assms kw keyword_safe(2) keyword_not_dot(3,4)]
  show ?thesis
    unfolding s routeOf_def using f(3,4) by (simp add: f(1,2,5) d Let_def)
qed

text \<open>
  C2, as stated, covers every string id. The empty id is a counterexample: its href
  is \<open>/events/\<close>, which the router reads as the list route.
\<close>

theorem route_roundtrip_counterexample:
  "hrefFor (EventDetail []) = Inr (js ''/events/'')
   \<and> routeOf no_platform (js ''/events/'') = Inr Events
   \<and> Events \<noteq> EventDetail []"
  by (simp add: routeOf_def new_URL_def js_def str_includes_def sublist_code
      url_preprocess_def c0_or_space_def tab_or_newline_def has_scheme_def ascii_alpha_def
      has_authority_def is_slash_def slash_def backslash_def relative_pathname_def
      strip_slashes_def Let_def in_path_set_def isLead_def isTrail_def single_dot_def
      double_dot_def asciiLower_def)

lemma encode_error: "\<not> wellFormed s \<Longrightarrow> encodeURIComponent s = Inl URIError"
proof (induction s rule: wellFormed.induct)
  case 1
  then show ?case by simp
next
  case (2 c)
  then show ?case using unreserved_not_surrogate[of c] by auto
next
  case (3 c c2 cs)
  show ?case
  proof (cases "isLead c")
    case True
    note nu = unreserved_not_surrogate[of c] and nt = lead_not_trail[OF True]
    show ?thesis
    proof (cases "isTrail c2")
      case False
      with True nu nt show ?thesis by auto
    next
      case t: True
      with True "3.prems" have "\<not> wellFormed cs" by simp
      from "3.IH"(1)[OF True this] True t nu nt show ?thesis by (auto simp: then_append_def)
    qed
  next
    case False
    show ?thesis
    proof (cases "isTrail c")
      case True
      with unreserved_not_surrogate[of c] show ?thesis by auto
    next
      case nt: False
      with False "3.prems" have "\<not> wellFormed (c2 # cs)" by simp
      from "3.IH"(2)[OF False this] False nt show ?thesis
        by (cases "unreserved c") (simp_all add: then_append_def)
    qed
  qed
qed

lemma routeOf_dot_paths:
  "routeOf platform (js ''/events/.'') = Inr Events"
  "routeOf platform (js ''/events/..'') = Inr Home"
  by (simp_all add: routeOf_def new_URL_def js_def str_includes_def sublist_code
      url_preprocess_def c0_or_space_def tab_or_newline_def has_scheme_def ascii_alpha_def
      has_authority_def is_slash_def slash_def backslash_def relative_pathname_def
      strip_slashes_def Let_def in_path_set_def isLead_def isTrail_def single_dot_def
      double_dot_def asciiLower_def)

lemma hrefFor_dot_ids:
  "hrefFor (EventDetail (js ''.'')) = Inr (js ''/events/.'')"
  "hrefFor (EventDetail (js ''..'')) = Inr (js ''/events/..'')"
  by (simp_all add: js_def unreserved_def)

text \<open>
  C2, amended. For every route intent of the nine kinds whose detail id, if it has
  one, is a non-empty string other than "." and ".." without a lone surrogate,
  \<open>hrefFor\<close> returns a path and \<open>routeOf\<close> of that path is the route: the id is
  percent-encoded on the way out and decoded on the way in, so ids with slashes or
  spaces survive. This holds whatever the platform's parser does on inputs with a
  scheme or an authority. The ids left out do not survive: the paths of "." and ".."
  are read as the events list and as home, and on an id with a lone surrogate
  \<open>hrefFor\<close> throws URIError.
\<close>

theorem route_roundtrip:
  "(route_ok r \<longrightarrow> (\<exists>href. hrefFor r = Inr href \<and> routeOf platform href = Inr r))
   \<and> hrefFor (EventDetail (js ''.'')) = Inr (js ''/events/.'')
   \<and> routeOf platform (js ''/events/.'') = Inr Events
   \<and> hrefFor (EventDetail (js ''..'')) = Inr (js ''/events/..'')
   \<and> routeOf platform (js ''/events/..'') = Inr Home
   \<and> (\<not> wellFormed i \<longrightarrow> hrefFor (EventDetail i) = Inl URIError
                             \<and> hrefFor (BillDetail i) = Inl URIError)"
proof (intro conjI impI)
  show "hrefFor (EventDetail (js ''.'')) = Inr (js ''/events/.'')"
    "hrefFor (EventDetail (js ''..'')) = Inr (js ''/events/..'')"
    by (rule hrefFor_dot_ids)+
  show "routeOf platform (js ''/events/.'') = Inr Events"
    "routeOf platform (js ''/events/..'') = Inr Home"
    by (rule routeOf_dot_paths)+
next
  assume "\<not> wellFormed i"
  then have e: "encodeURIComponent i = Inl URIError" by (rule encode_error)
  show "hrefFor (EventDetail i) = Inl URIError" by (simp add: e then_append_def)
  show "hrefFor (BillDetail i) = Inl URIError" by (simp add: e then_append_def)
next
  assume ok: "route_ok r"
  show "\<exists>href. hrefFor r = Inr href \<and> routeOf platform href = Inr r"
  proof (cases r)
    case (EventDetail i)
    with ok have ok: "detail_id_ok i" by simp
    then have "wellFormed i" by (simp add: detail_id_ok_def)
    from encode_total[OF this] obtain e where e: "encodeURIComponent i = Inr e" by blast
    from routeOf_event_detail[OF ok e, of platform] e EventDetail show ?thesis by simp
  next
    case (BillDetail i)
    with ok have ok: "detail_id_ok i" by simp
    then have "wellFormed i" by (simp add: detail_id_ok_def)
    from encode_total[OF this] obtain e where e: "encodeURIComponent i = Inr e" by blast
    from routeOf_bill_detail[OF ok e, of platform] e BillDetail show ?thesis by simp
  qed (simp_all add: routeOf_fixed)
qed

theorem route_roundtrip_witness:
  "route_ok (EventDetail (js ''a/b c''))
   \<and> hrefFor (EventDetail (js ''a/b c'')) = Inr (js ''/events/a%2Fb%20c'')
   \<and> routeOf no_platform (js ''/events/a%2Fb%20c'') = Inr (EventDetail (js ''a/b c''))
   \<and> \<not> wellFormed [0xD800]
   \<and> hrefFor (BillDetail [0xD800]) = Inl URIError"
proof -
  have ok: "route_ok (EventDetail (js ''a/b c''))"
    by (simp add: detail_id_ok_def js_def isLead_def isTrail_def)
  have h: "hrefFor (EventDetail (js ''a/b c'')) = Inr (js ''/events/a%2Fb%20c'')"
    by (simp add: js_def unreserved_def isLead_def isTrail_def pct_def utf8_encode_def
        hex_digit_def percent_def)
  have w: "\<not> wellFormed [0xD800]" by (simp add: isLead_def)
  note t = route_roundtrip[of "EventDetail (js ''a/b c'')" no_platform "[0xD800]"]
  from t ok h
  have a: "routeOf no_platform (js ''/events/a%2Fb%20c'') = Inr (EventDetail (js ''a/b c''))"
    by auto
  from t w have b: "hrefFor (BillDetail [0xD800]) = Inl URIError" by blast
  from ok h a w b show ?thesis by blast
qed

section \<open>Fallbacks and exceptions\<close>




































end
